theory Spec2Isabelle
  imports Main "HOL-Library.Word" "HOL-Library.Multiset"
begin

section \<open>Token tree (syntax2/parser/tokentree.go)\<close>

type_synonym uint64 = "64 word"

text \<open>
  The Go struct \<open>Token\<close> is declared outside the files at hand; the tree reads its fields
  \<open>StartPos\<close>, \<open>EndPos\<close> and \<open>LookaheadPos\<close> (all \<open>uint64\<close>) and never its role, which is
  kept as a number.
\<close>

record Token =
  Role :: nat
  StartPos :: uint64
  EndPos :: uint64
  LookaheadPos :: uint64

text \<open>
  A \<open>*TokenTree\<close> is either \<open>nil\<close> or points to a node that is never written after its
  allocation, so a pointer is modelled by the value it points to. The store-level model
  that justifies this reading is in the section on persistence below.
\<close>

datatype TokenTree =
  NilTree
  | Node (token: Token) (minStartPos: uint64) (maxEndPos: uint64)
      (leftChild: TokenTree) (rightChild: TokenTree)

text \<open>Every \<open>panic\<close> of the source, and the dereference of a nil pointer, is a value.\<close>

datatype panic =
  TokenLengthNotPositive
  | LookaheadBeforeEnd
  | TokenOverlapsExisting
  | SpanOverlaps
  | NilDereference

definition validateNewToken :: "Token \<Rightarrow> panic + unit" where
  "validateNewToken tok =
     (if StartPos tok \<ge> EndPos tok then Inl TokenLengthNotPositive
      else if EndPos tok > LookaheadPos tok then Inl LookaheadBeforeEnd
      else Inr ())"

fun withLeftChild :: "TokenTree \<Rightarrow> TokenTree \<Rightarrow> panic + TokenTree" where
  "withLeftChild (Node tok mn mx l r) (Node ctok cmn cmx cl cr) =
     Inr (Node tok (if cmn < mn then cmn else mn) mx (Node ctok cmn cmx cl cr) r)"
| "withLeftChild _ _ = Inl NilDereference"

fun withRightChild :: "TokenTree \<Rightarrow> TokenTree \<Rightarrow> panic + TokenTree" where
  "withRightChild (Node tok mn mx l r) (Node ctok cmn cmx cl cr) =
     Inr (Node tok mn (if cmx > mx then cmx else mx) l (Node ctok cmn cmx cl cr))"
| "withRightChild _ _ = Inl NilDereference"

fun Insert :: "TokenTree \<Rightarrow> Token \<Rightarrow> panic + TokenTree" where
  "Insert NilTree tok =
     (case validateNewToken tok of
        Inl e \<Rightarrow> Inl e
      | Inr _ \<Rightarrow> Inr (Node tok (StartPos tok) (EndPos tok) NilTree NilTree))"
| "Insert (Node ttok mn mx l r) tok =
     (case validateNewToken tok of
        Inl e \<Rightarrow> Inl e
      | Inr _ \<Rightarrow>
          if EndPos tok \<le> StartPos ttok then
            (case Insert l tok of
               Inl e \<Rightarrow> Inl e
             | Inr child \<Rightarrow> withLeftChild (Node ttok mn mx l r) child)
          else if StartPos tok \<ge> EndPos ttok then
            (case Insert r tok of
               Inl e \<Rightarrow> Inl e
             | Inr child \<Rightarrow> withRightChild (Node ttok mn mx l r) child)
          else Inl TokenOverlapsExisting)"

fun Join :: "TokenTree \<Rightarrow> TokenTree \<Rightarrow> panic + TokenTree" where
  "Join NilTree NilTree = Inr NilTree"
| "Join NilTree (Node otok omn omx ol orr) = Inr (Node otok omn omx ol orr)"
| "Join (Node tok mn mx l r) NilTree = Inr (Node tok mn mx l r)"
| "Join (Node tok mn mx l r) (Node otok omn omx ol orr) =
     (if omx \<le> mn then
        (case Join l (Node otok omn omx ol orr) of
           Inl e \<Rightarrow> Inl e
         | Inr l' \<Rightarrow> Inr (Node tok omn mx l' r))
      else if omn \<ge> mx then
        (case Join r (Node otok omn omx ol orr) of
           Inl e \<Rightarrow> Inl e
         | Inr r' \<Rightarrow> Inr (Node tok mn omx l r'))
      else Inl SpanOverlaps)"

subsection \<open>Iteration\<close>

record TokenIter =
  stack :: "TokenTree list"

text \<open>The loop of \<open>IterFromPosition\<close>: the stack grows at its end, as \<open>append\<close> does.\<close>

fun IterFromPosition_loop :: "TokenTree \<Rightarrow> uint64 \<Rightarrow> TokenTree list \<Rightarrow> TokenTree list" where
  "IterFromPosition_loop NilTree pos st = st"
| "IterFromPosition_loop (Node tok mn mx l r) pos st =
     (if pos < StartPos tok then IterFromPosition_loop l pos (st @ [Node tok mn mx l r])
      else if pos \<ge> EndPos tok then IterFromPosition_loop r pos st
      else st @ [Node tok mn mx l r])"

definition IterFromPosition :: "TokenTree \<Rightarrow> uint64 \<Rightarrow> TokenIter" where
  "IterFromPosition t pos = \<lparr>stack = IterFromPosition_loop t pos []\<rparr>"

text \<open>\<open>Get\<close> returns \<open>None\<close> for \<open>false\<close> and the current token otherwise.\<close>

definition Get :: "TokenIter \<Rightarrow> panic + Token option" where
  "Get iter =
     (if length (stack iter) = 0 then Inr None
      else (case last (stack iter) of
              NilTree \<Rightarrow> Inl NilDereference
            | Node tok mn mx l r \<Rightarrow> Inr (Some tok)))"

text \<open>The loop of \<open>Advance\<close> pushes the left spine of a subtree.\<close>

fun Advance_loop :: "TokenTree \<Rightarrow> TokenTree list \<Rightarrow> TokenTree list" where
  "Advance_loop NilTree st = st"
| "Advance_loop (Node tok mn mx l r) st = Advance_loop l (st @ [Node tok mn mx l r])"

definition Advance :: "TokenIter \<Rightarrow> panic + TokenIter" where
  "Advance iter =
     (if length (stack iter) = 0 then Inr iter
      else (case last (stack iter) of
              NilTree \<Rightarrow> Inl NilDereference
            | Node tok mn mx l r \<Rightarrow>
                Inr \<lparr>stack = Advance_loop r (take (length (stack iter) - 1) (stack iter))\<rparr>))"

text \<open>
  The measure of \<open>Collect\<close>'s loop: every stacked node stands for itself and for its right
  subtree, which is still to be visited.
\<close>

fun nodes :: "TokenTree \<Rightarrow> nat" where
  "nodes NilTree = 0"
| "nodes (Node tok mn mx l r) = Suc (nodes l + nodes r)"

fun pending :: "TokenTree \<Rightarrow> nat" where
  "pending NilTree = 0"
| "pending (Node tok mn mx l r) = Suc (nodes r)"

definition remaining :: "TokenIter \<Rightarrow> nat" where
  "remaining iter = sum_list (map pending (stack iter))"

lemma pending_Advance_loop:
  "sum_list (map pending (Advance_loop t st)) \<le> sum_list (map pending st) + nodes t"
proof (induction t arbitrary: st)
  case NilTree
  show ?case by simp
next
  case (Node tok mn mx l r)
  from Node.IH(1) [of "st @ [Node tok mn mx l r]"] show ?case by simp
qed

lemma Advance_decreases:
  assumes "Get iter = Inr (Some tok)" and "Advance iter = Inr iter'"
  shows "remaining iter' < remaining iter"
proof -
  from assms(1) obtain ttok mn mx l r where ne: "stack iter \<noteq> []"
    and top: "last (stack iter) = Node ttok mn mx l r"
    by (auto simp: Get_def split: if_splits TokenTree.splits)
  from ne have split: "stack iter = butlast (stack iter) @ [Node ttok mn mx l r]"
    using top by (metis append_butlast_last_id)
  from assms(2) ne top
  have iter': "stack iter' = Advance_loop r (butlast (stack iter))"
    by (auto simp: Advance_def butlast_conv_take)
  have "sum_list (map pending (stack iter'))
          \<le> sum_list (map pending (butlast (stack iter))) + nodes r"
    unfolding iter' by (rule pending_Advance_loop)
  also have "\<dots> < sum_list (map pending (stack iter))"
    by (subst (2) split) simp
  finally show ?thesis by (simp add: remaining_def)
qed

function Collect_loop :: "TokenIter \<Rightarrow> Token list \<Rightarrow> panic + Token list" where
  "Collect_loop iter result =
     (case Get iter of
        Inl e \<Rightarrow> Inl e
      | Inr None \<Rightarrow> Inr result
      | Inr (Some tok) \<Rightarrow>
          (case Advance iter of
             Inl e \<Rightarrow> Inl e
           | Inr iter' \<Rightarrow> Collect_loop iter' (result @ [tok])))"
  by pat_completeness auto
termination
  by (relation "measure (\<lambda>(iter, result). remaining iter)") (auto simp: Advance_decreases)

declare Collect_loop.simps [simp del]

definition Collect :: "TokenIter \<Rightarrow> panic + Token list" where
  "Collect iter = Collect_loop iter []"

subsection \<open>Specification vocabulary for the tree\<close>

text \<open>
  The in-order sequence of a tree, the token invariant \<open>start < end \<le> lookahead\<close>, the
  overlap of two tokens as \<open>Insert\<close> tests it (neither ends at or before the start of the
  other), and the ordering invariant of a tree: the tokens of the left subtree end at or
  before the node's token starts, those of the right subtree start at or after its end.
\<close>

fun inorder :: "TokenTree \<Rightarrow> Token list" where
  "inorder NilTree = []"
| "inorder (Node tok mn mx l r) = inorder l @ [tok] @ inorder r"

definition valid_token :: "Token \<Rightarrow> bool" where
  "valid_token tok = (StartPos tok < EndPos tok \<and> EndPos tok \<le> LookaheadPos tok)"

definition overlaps :: "Token \<Rightarrow> Token \<Rightarrow> bool" where
  "overlaps a b = (StartPos a < EndPos b \<and> StartPos b < EndPos a)"

fun wf_tree :: "TokenTree \<Rightarrow> bool" where
  "wf_tree NilTree = True"
| "wf_tree (Node tok mn mx l r) =
     (wf_tree l \<and> wf_tree r \<and> StartPos tok < EndPos tok
      \<and> (\<forall>k \<in> set (inorder l). EndPos k \<le> StartPos tok)
      \<and> (\<forall>k \<in> set (inorder r). EndPos tok \<le> StartPos k))"

fun visit :: "TokenTree \<Rightarrow> Token list" where
  "visit NilTree = []"
| "visit (Node tok mn mx l r) = tok # inorder r"

definition stack_tokens :: "TokenTree list \<Rightarrow> Token list" where
  "stack_tokens st = concat (map visit (rev st))"

lemma stack_tokens_simps [simp]:
  "stack_tokens [] = []"
  "stack_tokens (st @ [n]) = visit n @ stack_tokens st"
  by (simp_all add: stack_tokens_def)

lemma Advance_loop_nodes: "NilTree \<notin> set st \<Longrightarrow> NilTree \<notin> set (Advance_loop t st)"
  by (induction t arbitrary: st) auto

lemma Advance_loop_tokens: "stack_tokens (Advance_loop t st) = inorder t @ stack_tokens st"
  by (induction t arbitrary: st) auto

lemma Collect_loop_tokens:
  "NilTree \<notin> set (stack iter) \<Longrightarrow> Collect_loop iter acc = Inr (acc @ stack_tokens (stack iter))"
proof (induction iter acc rule: Collect_loop.induct)
  case (1 iter result)
  show ?case
  proof (cases "stack iter" rule: rev_cases)
    case Nil
    then show ?thesis by (subst Collect_loop.simps) (simp add: Get_def)
  next
    case (snoc st n)
    with "1.prems" obtain tok mn mx l r where n: "n = Node tok mn mx l r"
      by (cases n) auto
    have g: "Get iter = Inr (Some tok)" by (simp add: Get_def snoc n)
    have a: "Advance iter = Inr \<lparr>stack = Advance_loop r st\<rparr>"
      by (simp add: Advance_def snoc n)
    have "NilTree \<notin> set (stack \<lparr>stack = Advance_loop r st\<rparr>)"
      using "1.prems" snoc by (simp add: Advance_loop_nodes)
    from "1.IH" [OF g refl a this] show ?thesis
      by (subst Collect_loop.simps) (simp add: g a snoc n Advance_loop_tokens)
  qed
qed

lemma IterFromPosition_loop_nodes:
  "NilTree \<notin> set st \<Longrightarrow> NilTree \<notin> set (IterFromPosition_loop t pos st)"
  by (induction t arbitrary: st) auto

lemma IterFromPosition_loop_tokens:
  "wf_tree t \<Longrightarrow> (\<forall>k \<in> set (inorder t). StartPos k < EndPos k) \<Longrightarrow>
   stack_tokens (IterFromPosition_loop t pos st)
     = filter (\<lambda>k. pos < EndPos k) (inorder t) @ stack_tokens st"
proof (induction t arbitrary: st)
  case NilTree
  show ?case by simp
next
  case (Node tok mn mx l r)
  have l: "\<forall>k \<in> set (inorder l). EndPos k \<le> StartPos tok"
    and r: "\<forall>k \<in> set (inorder r). EndPos tok \<le> StartPos k \<and> StartPos k < EndPos k"
    and t: "StartPos tok < EndPos tok"
    using Node.prems by auto
  consider (before) "pos < StartPos tok" | (after) "EndPos tok \<le> pos"
    | (inside) "StartPos tok \<le> pos" "pos < EndPos tok"
    by fastforce
  then show ?case
  proof cases
    case before
    have "filter (\<lambda>k. pos < EndPos k) (inorder r) = inorder r"
      using r t before by (auto simp: filter_id_conv)
    with before t Node show ?thesis by auto
  next
    case after
    have "filter (\<lambda>k. pos < EndPos k) (inorder l) = []"
      using l t after by (auto simp: filter_empty_conv)
    with after t Node show ?thesis by auto
  next
    case inside
    have "filter (\<lambda>k. pos < EndPos k) (inorder l) = []"
      using l t inside by (auto simp: filter_empty_conv)
    moreover have "filter (\<lambda>k. pos < EndPos k) (inorder r) = inorder r"
      using r t inside by (auto simp: filter_id_conv)
    ultimately show ?thesis using inside by auto
  qed
qed

subsection \<open>Insertion keeps the order\<close>

lemma wf_tree_positive: "wf_tree t \<Longrightarrow> k \<in> set (inorder t) \<Longrightarrow> StartPos k < EndPos k"
  by (induction t) auto

lemma Insert_invalid:
  "validateNewToken tok = Inl e \<Longrightarrow> Insert t tok = Inl e"
  by (cases t) auto

lemma validateNewToken_Inr: "(validateNewToken tok = Inr u) = valid_token tok"
  by (auto simp: validateNewToken_def valid_token_def)

lemma validateNewToken_Inl: "(\<exists>e. validateNewToken tok = Inl e) = (\<not> valid_token tok)"
  by (auto simp: validateNewToken_def valid_token_def)

lemma Insert_ok:
  "wf_tree t \<Longrightarrow> valid_token tok \<Longrightarrow> \<forall>k \<in> set (inorder t). \<not> overlaps tok k \<Longrightarrow>
   \<exists>t'. Insert t tok = Inr t' \<and> t' \<noteq> NilTree \<and> wf_tree t'
        \<and> mset (inorder t') = add_mset tok (mset (inorder t))"
proof (induction t)
  case NilTree
  then show ?case
    by (auto simp: validateNewToken_def valid_token_def)
next
  case (Node ttok mn mx l r)
  have v: "validateNewToken tok = Inr ()"
    using Node.prems(2) by (simp add: validateNewToken_Inr)
  have no: "\<not> overlaps tok ttok" using Node.prems(3) by simp
  have pos: "StartPos tok < EndPos tok" using Node.prems(2) by (simp add: valid_token_def)
  show ?case
  proof (cases "EndPos tok \<le> StartPos ttok")
    case True
    from Node.IH(1) Node.prems obtain c where c: "Insert l tok = Inr c" "c \<noteq> NilTree"
      "wf_tree c" "mset (inorder c) = add_mset tok (mset (inorder l))"
      by auto
    from c(2) obtain ctok cmn cmx cl cr where cn: "c = Node ctok cmn cmx cl cr"
      by (cases c) auto
    have "set (inorder c) = insert tok (set (inorder l))"
      using c(4) by (metis set_mset_add_mset_insert set_mset_mset)
    then have "\<forall>k \<in> set (inorder c). EndPos k \<le> StartPos ttok"
      using True Node.prems(1) by auto
    then show ?thesis
      using True v c Node.prems(1) unfolding cn by auto
  next
    case False
    with no pos have ge: "StartPos tok \<ge> EndPos ttok"
      by (auto simp: overlaps_def)
    from Node.IH(2) Node.prems obtain c where c: "Insert r tok = Inr c" "c \<noteq> NilTree"
      "wf_tree c" "mset (inorder c) = add_mset tok (mset (inorder r))"
      by auto
    from c(2) obtain ctok cmn cmx cl cr where cn: "c = Node ctok cmn cmx cl cr"
      by (cases c) auto
    have "set (inorder c) = insert tok (set (inorder r))"
      using c(4) by (metis set_mset_add_mset_insert set_mset_mset)
    then have "\<forall>k \<in> set (inorder c). EndPos ttok \<le> StartPos k"
      using ge Node.prems(1) by auto
    then show ?thesis
      using False ge v c Node.prems(1) unfolding cn by auto
  qed
qed

lemma Insert_overlap:
  "wf_tree t \<Longrightarrow> valid_token tok \<Longrightarrow> k \<in> set (inorder t) \<Longrightarrow> overlaps tok k \<Longrightarrow>
   Insert t tok = Inl TokenOverlapsExisting"
proof (induction t)
  case NilTree
  then show ?case by simp
next
  case (Node ttok mn mx l r)
  have v: "validateNewToken tok = Inr ()"
    using Node.prems(2) by (simp add: validateNewToken_Inr)
  have o: "StartPos tok < EndPos k" "StartPos k < EndPos tok"
    using Node.prems(4) by (auto simp: overlaps_def)
  have t: "StartPos ttok < EndPos ttok" using Node.prems(1) by simp
  from Node.prems(3) consider (l) "k \<in> set (inorder l)" | (m) "k = ttok" | (r) "k \<in> set (inorder r)"
    by auto
  then show ?case
  proof cases
    case l
    then have "EndPos k \<le> StartPos ttok" using Node.prems(1) by simp
    with o t have "\<not> StartPos tok \<ge> EndPos ttok" by auto
    with Node.IH(1) Node.prems l v show ?thesis by auto
  next
    case m
    with o v show ?thesis by auto
  next
    case r
    then have "EndPos ttok \<le> StartPos k" using Node.prems(1) by simp
    with o t have "\<not> EndPos tok \<le> StartPos ttok" by auto
    with Node.IH(2) Node.prems r v show ?thesis by auto
  qed
qed

lemma wf_tree_sorted: "wf_tree t \<Longrightarrow> sorted_wrt (\<lambda>a b. EndPos a \<le> StartPos b) (inorder t)"
proof (induction t)
  case NilTree
  show ?case by simp
next
  case (Node tok mn mx l r)
  have "\<forall>a \<in> set (inorder l). \<forall>b \<in> set (inorder r). EndPos a \<le> StartPos b"
  proof (intro ballI)
    fix a b assume "a \<in> set (inorder l)" "b \<in> set (inorder r)"
    with Node.prems have "EndPos a \<le> StartPos tok" "StartPos tok < EndPos tok" "EndPos tok \<le> StartPos b"
      by auto
    then show "EndPos a \<le> StartPos b" by auto
  qed
  with Node show ?case by (auto simp: sorted_wrt_append)
qed

subsection \<open>A sequence of insertions and its traversal\<close>

fun InsertAll :: "TokenTree \<Rightarrow> Token list \<Rightarrow> panic + TokenTree" where
  "InsertAll t [] = Inr t"
| "InsertAll t (tok # toks) =
     (case Insert t tok of Inl e \<Rightarrow> Inl e | Inr t' \<Rightarrow> InsertAll t' toks)"

fun non_overlapping :: "Token list \<Rightarrow> bool" where
  "non_overlapping [] = True"
| "non_overlapping (tok # toks) = ((\<forall>k \<in> set toks. \<not> overlaps tok k) \<and> non_overlapping toks)"

lemma InsertAll_ok:
  "wf_tree t \<Longrightarrow> \<forall>k \<in> set toks. valid_token k \<Longrightarrow> non_overlapping toks \<Longrightarrow>
   \<forall>k \<in> set toks. \<forall>j \<in> set (inorder t). \<not> overlaps k j \<Longrightarrow>
   \<exists>t'. InsertAll t toks = Inr t' \<and> wf_tree t' \<and> mset (inorder t') = mset (inorder t) + mset toks"
proof (induction toks arbitrary: t)
  case Nil
  then show ?case by simp
next
  case (Cons tok toks)
  from Insert_ok [of t tok] Cons.prems obtain t1 where t1: "Insert t tok = Inr t1" "wf_tree t1"
    "mset (inorder t1) = add_mset tok (mset (inorder t))"
    by auto
  have s: "set (inorder t1) = insert tok (set (inorder t))"
    using t1(3) by (metis set_mset_add_mset_insert set_mset_mset)
  have "\<forall>k \<in> set toks. \<forall>j \<in> set (inorder t1). \<not> overlaps k j"
    using Cons.prems(3,4) unfolding s by (auto simp: overlaps_def)
  with Cons.IH [of t1] t1 Cons.prems(2,3) obtain t' where "InsertAll t1 toks = Inr t'" "wf_tree t'"
    "mset (inorder t') = mset (inorder t1) + mset toks"
    by auto
  with t1 show ?case by auto
qed

lemma Collect_IterFromPosition:
  assumes "wf_tree t"
  shows "Collect (IterFromPosition t pos) = Inr (filter (\<lambda>k. pos < EndPos k) (inorder t))"
proof -
  have "NilTree \<notin> set (stack (IterFromPosition t pos))"
    by (simp add: IterFromPosition_def IterFromPosition_loop_nodes)
  then show ?thesis
    using IterFromPosition_loop_tokens [OF assms, of pos "[]"] wf_tree_positive [OF assms]
    by (simp add: Collect_def Collect_loop_tokens IterFromPosition_def)
qed

lemma Get_stack_tokens:
  "NilTree \<notin> set (stack iter) \<Longrightarrow>
   Get iter = Inr (case stack_tokens (stack iter) of [] \<Rightarrow> None | k # ks \<Rightarrow> Some k)"
proof (cases "stack iter" rule: rev_cases)
  case Nil
  then show ?thesis by (simp add: Get_def)
next
  case (snoc st n)
  assume "NilTree \<notin> set (stack iter)"
  with snoc show ?thesis by (cases n) (auto simp: Get_def)
qed

lemma Get_IterFromPosition:
  assumes "wf_tree t"
  shows "Get (IterFromPosition t pos)
    = Inr (case filter (\<lambda>k. pos < EndPos k) (inorder t) of [] \<Rightarrow> None | k # ks \<Rightarrow> Some k)"
proof -
  have "NilTree \<notin> set (stack (IterFromPosition t pos))"
    by (simp add: IterFromPosition_def IterFromPosition_loop_nodes)
  from Get_stack_tokens [OF this] show ?thesis
    using IterFromPosition_loop_tokens [OF assms, of pos "[]"] wf_tree_positive [OF assms]
    by (simp add: IterFromPosition_def)
qed

lemma sorted_starts:
  assumes "sorted_wrt (\<lambda>a b. EndPos a \<le> StartPos b) ks" and "\<forall>k \<in> set ks. StartPos k < EndPos k"
  shows "sorted_wrt (\<lambda>a b. StartPos a < StartPos b) ks"
  using assms by (induction ks) fastforce+

lemma filter_eq_single: "distinct xs \<Longrightarrow> k \<in> set xs \<Longrightarrow> filter (\<lambda>x. k = x) xs = [k]"
  by (induction xs) (auto simp: filter_empty_conv)

lemma strict_sorted_distinct: "sorted_wrt (\<lambda>a b. f a < (f b :: 'b :: linorder)) ys \<Longrightarrow> distinct ys"
  by (induction ys) auto

lemma sorted_wrt_related:
  "sorted_wrt P ys \<Longrightarrow> x \<in> set ys \<Longrightarrow> y \<in> set ys \<Longrightarrow> x = y \<or> P x y \<or> P y x"
proof (induction ys)
  case Nil
  then show ?case by simp
next
  case (Cons a ys)
  from Cons.prems(1) have h: "\<forall>z \<in> set ys. P a z" and s: "sorted_wrt P ys" by simp_all
  from Cons.prems(2,3) consider "x = a" "y = a" | "x = a" "y \<in> set ys" | "x \<in> set ys" "y = a"
    | "x \<in> set ys" "y \<in> set ys" by auto
  then show ?case
  proof cases
    case 1 then show ?thesis by simp
  next
    case 2 with h show ?thesis by blast
  next
    case 3 with h show ?thesis by blast
  next
    case 4 with Cons.IH s show ?thesis by blast
  qed
qed

lemma strict_sorted_inj:
  fixes f :: "'a \<Rightarrow> 'b :: linorder"
  assumes "sorted_wrt (\<lambda>a b. f a < f b) ys" and "x \<in> set ys" and "y \<in> set ys" and "f x = f y"
  shows "x = y"
  using sorted_wrt_related [OF assms(1-3)] assms(4) by auto

lemma sort_key_unique:
  fixes f :: "'a \<Rightarrow> 'b :: linorder"
  assumes "mset ys = mset xs" and "sorted_wrt (\<lambda>a b. f a < f b) ys"
  shows "sort_key f xs = ys"
proof (rule properties_for_sort_key [OF assms(1)])
  have "sorted_wrt (\<lambda>a b. f a \<le> f b) ys"
    by (rule sorted_wrt_mono_rel [OF _ assms(2)]) simp
  then show "sorted (map f ys)"
    by (simp add: sorted_map)
next
  fix k assume k: "k \<in> set ys"
  have d: "distinct ys" by (rule strict_sorted_distinct [OF assms(2)])
  have dx: "distinct xs" using d assms(1) by (metis mset_eq_imp_distinct_iff)
  have sx: "set xs = set ys" using assms(1) by (metis set_mset_mset)
  have e: "\<And>x. x \<in> set ys \<Longrightarrow> (f k = f x) = (k = x)"
    using strict_sorted_inj [OF assms(2) k] by blast
  have "filter (\<lambda>x. f k = f x) ys = filter (\<lambda>x. k = x) ys"
    by (rule filter_cong [OF refl]) (rule e)
  moreover have "filter (\<lambda>x. f k = f x) xs = filter (\<lambda>x. k = x) xs"
    by (rule filter_cong [OF refl]) (simp add: e sx)
  moreover have "filter (\<lambda>x. k = x) ys = [k]"
    by (rule filter_eq_single [OF d k])
  moreover have "filter (\<lambda>x. k = x) xs = [k]"
    by (rule filter_eq_single [OF dx]) (simp add: sx k)
  ultimately show "filter (\<lambda>x. f k = f x) ys = filter (\<lambda>x. f k = f x) xs" by simp
qed

text \<open>
  Claim C1. A tree built from the empty tree by inserting valid, pairwise non-overlapping
  tokens, in any order, exists (no insertion panics), and collecting the iterator from
  position 0 yields exactly the inserted tokens sorted by start position; in that sequence
  every token ends at or before the start of every later one.
\<close>

theorem inorder_after_inserts:
  assumes "\<forall>k \<in> set toks. valid_token k" and "non_overlapping toks"
  shows "\<exists>t. InsertAll NilTree toks = Inr t
           \<and> Collect (IterFromPosition t 0) = Inr (sort_key StartPos toks)
           \<and> sorted_wrt (\<lambda>a b. StartPos a < StartPos b \<and> EndPos a \<le> StartPos b)
                (sort_key StartPos toks)"
proof -
  from InsertAll_ok [of NilTree toks] assms obtain t where t: "InsertAll NilTree toks = Inr t"
    "wf_tree t" "mset (inorder t) = mset toks"
    by auto
  have pos: "\<forall>k \<in> set (inorder t). StartPos k < EndPos k"
    using wf_tree_positive [OF t(2)] by blast
  then have all: "filter (\<lambda>k. 0 < EndPos k) (inorder t) = inorder t"
    by (auto simp: filter_id_conv intro: le_less_trans [of 0])
  have s1: "sorted_wrt (\<lambda>a b. EndPos a \<le> StartPos b) (inorder t)"
    by (rule wf_tree_sorted [OF t(2)])
  have s2: "sorted_wrt (\<lambda>a b. StartPos a < StartPos b) (inorder t)"
    by (rule sorted_starts [OF s1 pos])
  have sk: "sort_key StartPos toks = inorder t"
    by (rule sort_key_unique [OF t(3) s2])
  have s3: "sorted_wrt (\<lambda>a b. StartPos a < StartPos b \<and> EndPos a \<le> StartPos b) (inorder t)"
    using s1 s2 by (simp add: sorted_wrt_iff_nth_less)
  have c: "Collect (IterFromPosition t 0) = Inr (inorder t)"
    using Collect_IterFromPosition [OF t(2), of 0] by (simp only: all)
  show ?thesis
    unfolding sk using t(1) c s3 by blast
qed

theorem inorder_after_inserts_witness:
  "valid_token \<lparr>Role = 1, StartPos = 0, EndPos = 3, LookaheadPos = 3\<rparr>
   \<and> valid_token \<lparr>Role = 2, StartPos = 10, EndPos = 15, LookaheadPos = 15\<rparr>
   \<and> valid_token \<lparr>Role = 3, StartPos = 5, EndPos = 8, LookaheadPos = 9\<rparr>
   \<and> non_overlapping
        [\<lparr>Role = 1, StartPos = 0, EndPos = 3, LookaheadPos = 3\<rparr>,
         \<lparr>Role = 2, StartPos = 10, EndPos = 15, LookaheadPos = 15\<rparr>,
         \<lparr>Role = 3, StartPos = 5, EndPos = 8, LookaheadPos = 9\<rparr>]
   \<and> (\<exists>t. InsertAll NilTree
              [\<lparr>Role = 1, StartPos = 0, EndPos = 3, LookaheadPos = 3\<rparr>,
               \<lparr>Role = 2, StartPos = 10, EndPos = 15, LookaheadPos = 15\<rparr>,
               \<lparr>Role = 3, StartPos = 5, EndPos = 8, LookaheadPos = 9\<rparr>] = Inr t
          \<and> Collect (IterFromPosition t 0) =
              Inr [\<lparr>Role = 1, StartPos = 0, EndPos = 3, LookaheadPos = 3\<rparr>,
                   \<lparr>Role = 3, StartPos = 5, EndPos = 8, LookaheadPos = 9\<rparr>,
                   \<lparr>Role = 2, StartPos = 10, EndPos = 15, LookaheadPos = 15\<rparr>])"
  using inorder_after_inserts
    [of "[\<lparr>Role = 1, StartPos = 0, EndPos = 3, LookaheadPos = 3\<rparr>,
          \<lparr>Role = 2, StartPos = 10, EndPos = 15, LookaheadPos = 15\<rparr>,
          \<lparr>Role = 3, StartPos = 5, EndPos = 8, LookaheadPos = 9\<rparr>]"]
  by (simp add: valid_token_def overlaps_def)

text \<open>
  Claim C2. For a tree that satisfies the ordering invariant, the iterator from \<open>pos\<close>
  yields, in order, exactly the tokens whose end is greater than \<open>pos\<close>, and its current
  token is the first of them. After inserting (0,3,3), (10,15,15) and (5,8,8), whatever
  their roles, collecting from position 6 returns (5,8,8) and then (10,15,15).
\<close>

theorem IterFromPosition_tokens_after:
  "(wf_tree t \<longrightarrow>
      Collect (IterFromPosition t pos) = Inr (filter (\<lambda>k. pos < EndPos k) (inorder t))
      \<and> Get (IterFromPosition t pos) =
          Inr (case filter (\<lambda>k. pos < EndPos k) (inorder t) of [] \<Rightarrow> None | k # ks \<Rightarrow> Some k))
   \<and> (\<exists>t3. InsertAll NilTree
               [\<lparr>Role = r1, StartPos = 0, EndPos = 3, LookaheadPos = 3\<rparr>,
                \<lparr>Role = r2, StartPos = 10, EndPos = 15, LookaheadPos = 15\<rparr>,
                \<lparr>Role = r3, StartPos = 5, EndPos = 8, LookaheadPos = 8\<rparr>] = Inr t3
           \<and> Collect (IterFromPosition t3 6) =
               Inr [\<lparr>Role = r3, StartPos = 5, EndPos = 8, LookaheadPos = 8\<rparr>,
                    \<lparr>Role = r2, StartPos = 10, EndPos = 15, LookaheadPos = 15\<rparr>])"
proof (intro conjI impI)
  assume "wf_tree t"
  then show "Collect (IterFromPosition t pos) = Inr (filter (\<lambda>k. pos < EndPos k) (inorder t))"
    by (rule Collect_IterFromPosition)
next
  assume "wf_tree t"
  then show "Get (IterFromPosition t pos) =
    Inr (case filter (\<lambda>k. pos < EndPos k) (inorder t) of [] \<Rightarrow> None | k # ks \<Rightarrow> Some k)"
    by (rule Get_IterFromPosition)
next
  show "\<exists>t3. InsertAll NilTree
               [\<lparr>Role = r1, StartPos = 0, EndPos = 3, LookaheadPos = 3\<rparr>,
                \<lparr>Role = r2, StartPos = 10, EndPos = 15, LookaheadPos = 15\<rparr>,
                \<lparr>Role = r3, StartPos = 5, EndPos = 8, LookaheadPos = 8\<rparr>] = Inr t3
           \<and> Collect (IterFromPosition t3 6) =
               Inr [\<lparr>Role = r3, StartPos = 5, EndPos = 8, LookaheadPos = 8\<rparr>,
                    \<lparr>Role = r2, StartPos = 10, EndPos = 15, LookaheadPos = 15\<rparr>]"
    by (simp add: validateNewToken_def Collect_def IterFromPosition_def Get_def Advance_def
        Collect_loop.simps)
qed

theorem IterFromPosition_tokens_after_witness:
  "wf_tree (Node \<lparr>Role = 1, StartPos = 4, EndPos = 6, LookaheadPos = 6\<rparr> 1 9
      (Node \<lparr>Role = 2, StartPos = 1, EndPos = 3, LookaheadPos = 3\<rparr> 1 3 NilTree NilTree)
      (Node \<lparr>Role = 3, StartPos = 7, EndPos = 9, LookaheadPos = 9\<rparr> 7 9 NilTree NilTree))
   \<and> Collect (IterFromPosition
        (Node \<lparr>Role = 1, StartPos = 4, EndPos = 6, LookaheadPos = 6\<rparr> 1 9
          (Node \<lparr>Role = 2, StartPos = 1, EndPos = 3, LookaheadPos = 3\<rparr> 1 3 NilTree NilTree)
          (Node \<lparr>Role = 3, StartPos = 7, EndPos = 9, LookaheadPos = 9\<rparr> 7 9 NilTree NilTree)) 3)
       = Inr [\<lparr>Role = 1, StartPos = 4, EndPos = 6, LookaheadPos = 6\<rparr>,
              \<lparr>Role = 3, StartPos = 7, EndPos = 9, LookaheadPos = 9\<rparr>]"
  using IterFromPosition_tokens_after
    [of "Node \<lparr>Role = 1, StartPos = 4, EndPos = 6, LookaheadPos = 6\<rparr> 1 9
          (Node \<lparr>Role = 2, StartPos = 1, EndPos = 3, LookaheadPos = 3\<rparr> 1 3 NilTree NilTree)
          (Node \<lparr>Role = 3, StartPos = 7, EndPos = 9, LookaheadPos = 9\<rparr> 7 9 NilTree NilTree)" 3]
  by simp

text \<open>
  Claim C7. On a tree that satisfies the ordering invariant, \<open>Insert\<close> panics exactly when
  the token has no positive length, or its lookahead is before its end, or it overlaps a
  token of the tree; a token with none of these defects is inserted: the result is a tree
  that satisfies the invariant and holds the old tokens and the new one.
\<close>

theorem Insert_panics_iff:
  "wf_tree t \<Longrightarrow>
   ((\<exists>e. Insert t tok = Inl e) \<longleftrightarrow>
      (StartPos tok \<ge> EndPos tok \<or> LookaheadPos tok < EndPos tok
       \<or> (\<exists>k \<in> set (inorder t). overlaps tok k)))
   \<and> (StartPos tok < EndPos tok \<and> EndPos tok \<le> LookaheadPos tok
        \<and> (\<forall>k \<in> set (inorder t). \<not> overlaps tok k) \<longrightarrow>
      (\<exists>t'. Insert t tok = Inr t' \<and> wf_tree t'
         \<and> mset (inorder t') = add_mset tok (mset (inorder t))))"
proof -
  assume wf: "wf_tree t"
  have ok: "\<exists>t'. Insert t tok = Inr t' \<and> wf_tree t'
      \<and> mset (inorder t') = add_mset tok (mset (inorder t))"
    if "valid_token tok" "\<forall>k \<in> set (inorder t). \<not> overlaps tok k"
    using Insert_ok [OF wf that] by blast
  have bad: "\<exists>e. Insert t tok = Inl e" if "\<not> valid_token tok"
    using that validateNewToken_Inl [of tok] Insert_invalid [of tok _ t] by blast
  have ov: "\<exists>e. Insert t tok = Inl e" if "valid_token tok" "k \<in> set (inorder t)" "overlaps tok k" for k
    using Insert_overlap [OF wf that] by blast
  have v: "valid_token tok = (\<not> (StartPos tok \<ge> EndPos tok \<or> LookaheadPos tok < EndPos tok))"
    by (auto simp: valid_token_def)
  show ?thesis
  proof (cases "valid_token tok")
    case False
    with bad v show ?thesis by auto
  next
    case True
    show ?thesis
    proof (cases "\<exists>k \<in> set (inorder t). overlaps tok k")
      case True
      with ov \<open>valid_token tok\<close> v show ?thesis by blast
    next
      case False
      with ok [OF \<open>valid_token tok\<close>] v \<open>valid_token tok\<close> show ?thesis by auto
    qed
  qed
qed

theorem Insert_panics_iff_witness:
  "wf_tree (Node \<lparr>Role = 1, StartPos = 4, EndPos = 6, LookaheadPos = 6\<rparr> 4 6 NilTree NilTree)
   \<and> (\<exists>e. Insert (Node \<lparr>Role = 1, StartPos = 4, EndPos = 6, LookaheadPos = 6\<rparr> 4 6 NilTree NilTree)
            \<lparr>Role = 2, StartPos = 5, EndPos = 7, LookaheadPos = 7\<rparr> = Inl e)
   \<and> (\<exists>t'. Insert (Node \<lparr>Role = 1, StartPos = 4, EndPos = 6, LookaheadPos = 6\<rparr> 4 6 NilTree NilTree)
            \<lparr>Role = 2, StartPos = 6, EndPos = 7, LookaheadPos = 7\<rparr> = Inr t' \<and> wf_tree t')"
proof -
  let ?t = "Node \<lparr>Role = 1, StartPos = 4, EndPos = 6, LookaheadPos = 6\<rparr> 4 6 NilTree NilTree"
  have wf: "wf_tree ?t" by simp
  have a: "\<exists>e. Insert ?t \<lparr>Role = 2, StartPos = 5, EndPos = 7, LookaheadPos = 7\<rparr> = Inl e"
    using Insert_panics_iff [OF wf, of "\<lparr>Role = 2, StartPos = 5, EndPos = 7, LookaheadPos = 7\<rparr>"]
    by (simp add: overlaps_def del: Insert.simps)
  have b: "\<exists>t'. Insert ?t \<lparr>Role = 2, StartPos = 6, EndPos = 7, LookaheadPos = 7\<rparr> = Inr t'
      \<and> wf_tree t'"
    using Insert_panics_iff [OF wf, of "\<lparr>Role = 2, StartPos = 6, EndPos = 7, LookaheadPos = 7\<rparr>"]
    by (simp add: overlaps_def del: Insert.simps) blast
  from wf a b show ?thesis by blast
qed

section \<open>Cursor locators (internal/pkg/exec/locator.go)\<close>

subsection \<open>The text buffer and its grapheme clusters\<close>

text \<open>
  Modelled from the spec: the text buffer (package \<open>text\<close>) and its grapheme-cluster
  iterator (package \<open>segment\<close>), which are not among the files at hand. The spec says
  that the buffer is indexed by character position, streams in both directions from any
  position and exposes a grapheme-cluster iterator, and that a cluster is one
  user-perceived character of one or more code points. The buffer is therefore the
  sequence of its clusters, each a list of runes; a position counts runes. Reading
  forward from a position yields the clusters from there on, reading backward yields the
  clusters before it, nearest first; a position inside a cluster splits it. The locators
  ask a cluster only for its number of runes and whether it holds a newline. The panic of
  \<open>nextSegmentOrEof\<close> on invalid UTF-8 has no counterpart: the model holds decoded runes.
\<close>

type_synonym rune = "32 word"

type_synonym Segment = "rune list"

definition NumRunes :: "Segment \<Rightarrow> uint64" where
  "NumRunes seg = word_of_nat (length seg)"

definition HasNewline :: "Segment \<Rightarrow> bool" where
  "HasNewline seg = (10 \<in> set seg)"

type_synonym Tree = "Segment list"

definition NumChars :: "Tree \<Rightarrow> uint64" where
  "NumChars tree = word_of_nat (length (concat tree))"

datatype ReadDirection = ReadDirectionForward | ReadDirectionBackward

text \<open>An iterator is the list of clusters it has yet to return; at its end it returns EOF.\<close>

type_synonym SegmentIter = "Segment list"

fun clustersFrom :: "nat \<Rightarrow> Tree \<Rightarrow> SegmentIter" where
  "clustersFrom n [] = []"
| "clustersFrom n (seg # segs) =
     (if n = 0 then seg # segs
      else if length seg \<le> n then clustersFrom (n - length seg) segs
      else drop n seg # segs)"

fun clustersBefore :: "nat \<Rightarrow> Tree \<Rightarrow> SegmentIter" where
  "clustersBefore n [] = []"
| "clustersBefore n (seg # segs) =
     (if n = 0 then []
      else if length seg \<le> n then clustersBefore (n - length seg) segs @ [seg]
      else [take n seg])"

definition gcIterForTree :: "Tree \<Rightarrow> uint64 \<Rightarrow> ReadDirection \<Rightarrow> SegmentIter" where
  "gcIterForTree tree pos direction =
     (if direction = ReadDirectionBackward then clustersBefore (unat pos) tree
      else clustersFrom (unat pos) tree)"

definition nextSegmentOrEof :: "SegmentIter \<Rightarrow> (Segment option \<times> SegmentIter)" where
  "nextSegmentOrEof iter = (case iter of [] \<Rightarrow> (None, []) | seg # rest \<Rightarrow> (Some seg, rest))"

record cursorState =
  position :: uint64
  logicalOffset :: uint64

record State =
  tree :: Tree
  cursor :: cursorState

text \<open>
  Both locator structs have fields \<open>direction\<close> and \<open>count\<close>; the fields carry a prefix
  here, since record fields share one name space.
\<close>

record charInLineLocator =
  cil_direction :: ReadDirection
  cil_count :: uint64
  cil_includeEndOfLineOrFile :: bool

record relativeLineLocator =
  rl_direction :: ReadDirection
  rl_count :: uint64

datatype exec_panic = CountMustBeGreaterThanZero

definition NewCharInLineLocator :: "ReadDirection \<Rightarrow> uint64 \<Rightarrow> bool \<Rightarrow> exec_panic + charInLineLocator" where
  "NewCharInLineLocator dir cnt includeEndOfLineOrFile =
     (if cnt = 0 then Inl CountMustBeGreaterThanZero
      else Inr \<lparr>cil_direction = dir, cil_count = cnt,
                cil_includeEndOfLineOrFile = includeEndOfLineOrFile\<rparr>)"

definition NewRelativeLineLocator :: "ReadDirection \<Rightarrow> uint64 \<Rightarrow> exec_panic + relativeLineLocator" where
  "NewRelativeLineLocator dir cnt =
     (if cnt = 0 then Inl CountMustBeGreaterThanZero
      else Inr \<lparr>rl_direction = dir, rl_count = cnt\<rparr>)"

subsection \<open>ontoLineLocator\<close>

definition findNewlineAtPos :: "Tree \<Rightarrow> uint64 \<Rightarrow> bool \<times> uint64" where
  "findNewlineAtPos tr pos =
     (case nextSegmentOrEof (gcIterForTree tr pos ReadDirectionForward) of
        (None, _) \<Rightarrow> (False, 0)
      | (Some seg, _) \<Rightarrow> if HasNewline seg then (True, pos + NumRunes seg) else (False, 0))"

text \<open>
  The loops read their iterator by pattern matching: the empty list is EOF, \<open>seg # rest\<close>
  is \<open>NextSegment\<close> returning \<open>seg\<close> and leaving \<open>rest\<close>.
\<close>

fun findPrevGraphemeCluster_loop :: "int \<Rightarrow> int \<Rightarrow> SegmentIter \<Rightarrow> uint64 \<Rightarrow> SegmentIter \<times> uint64" where
  "findPrevGraphemeCluster_loop cnt i [] offset = ([], offset)"
| "findPrevGraphemeCluster_loop cnt i (seg # rest) offset =
     (if i < cnt - 1 then findPrevGraphemeCluster_loop cnt (i + 1) rest (offset + NumRunes seg)
      else (seg # rest, offset))"

definition findPrevGraphemeCluster :: "Tree \<Rightarrow> uint64 \<Rightarrow> int \<Rightarrow> uint64" where
  "findPrevGraphemeCluster tr pos cnt =
     (case findPrevGraphemeCluster_loop cnt 0 (gcIterForTree tr pos ReadDirectionBackward) 0 of
        (segmentIter, offset) \<Rightarrow>
          (case nextSegmentOrEof segmentIter of
             (None, _) \<Rightarrow> 0
           | (Some seg, _) \<Rightarrow>
               if HasNewline seg then pos - offset else pos - offset - NumRunes seg))"

definition ontoLineLocator_Locate :: "State \<Rightarrow> cursorState" where
  "ontoLineLocator_Locate state =
     (let numChars = NumChars (tree state) in
      if position (cursor state) \<ge> numChars then
        \<lparr>position = findPrevGraphemeCluster (tree state) numChars 1, logicalOffset = 0\<rparr>
      else
        (case findNewlineAtPos (tree state) (position (cursor state)) of
           (True, afterNewlinePos) \<Rightarrow>
             \<lparr>position = findPrevGraphemeCluster (tree state) afterNewlinePos 2, logicalOffset = 0\<rparr>
         | (False, _) \<Rightarrow> \<lparr>position = position (cursor state), logicalOffset = 0\<rparr>))"

subsection \<open>relativeLineLocator\<close>

fun findOffsetFromLineStart_loop :: "SegmentIter \<Rightarrow> uint64 \<Rightarrow> uint64" where
  "findOffsetFromLineStart_loop [] offset = offset"
| "findOffsetFromLineStart_loop (seg # rest) offset =
     (if HasNewline seg then offset else findOffsetFromLineStart_loop rest (offset + 1))"

definition findOffsetFromLineStart :: "State \<Rightarrow> uint64" where
  "findOffsetFromLineStart state =
     findOffsetFromLineStart_loop
       (gcIterForTree (tree state) (position (cursor state)) ReadDirectionBackward) 0
     + logicalOffset (cursor state)"

fun findStartOfLineAbove_loop :: "uint64 \<Rightarrow> SegmentIter \<Rightarrow> uint64 \<Rightarrow> uint64 \<Rightarrow> uint64 \<times> uint64" where
  "findStartOfLineAbove_loop cnt [] offset newlineCount = (offset, newlineCount)"
| "findStartOfLineAbove_loop cnt (seg # rest) offset newlineCount =
     (if HasNewline seg then
        (if newlineCount + 1 > cnt then (offset, newlineCount + 1)
         else findStartOfLineAbove_loop cnt rest (offset + NumRunes seg) (newlineCount + 1))
      else findStartOfLineAbove_loop cnt rest (offset + NumRunes seg) newlineCount)"

definition findStartOfLineAbove :: "relativeLineLocator \<Rightarrow> Tree \<Rightarrow> uint64 \<Rightarrow> uint64 \<times> uint64" where
  "findStartOfLineAbove loc tr pos =
     (case findStartOfLineAbove_loop (rl_count loc) (gcIterForTree tr pos ReadDirectionBackward) 0 0 of
        (offset, newlineCount) \<Rightarrow> (pos - offset, newlineCount))"

text \<open>
  \<open>findStartOfLineBelow\<close> runs a second iterator one cluster ahead of the first; both
  advance once per round.
\<close>

fun findStartOfLineBelow_loop ::
  "uint64 \<Rightarrow> SegmentIter \<Rightarrow> SegmentIter \<Rightarrow> uint64 \<Rightarrow> uint64 \<Rightarrow> uint64 \<times> uint64" where
  "findStartOfLineBelow_loop cnt [] nextSegmentIter offset newlineCount = (offset, newlineCount)"
| "findStartOfLineBelow_loop cnt (seg # rest) nextSegmentIter offset newlineCount =
     (if newlineCount < cnt then
        (if HasNewline seg \<and> fst (nextSegmentOrEof nextSegmentIter) = None
         then (offset, newlineCount)
         else findStartOfLineBelow_loop cnt rest (snd (nextSegmentOrEof nextSegmentIter))
                (offset + NumRunes seg) (if HasNewline seg then newlineCount + 1 else newlineCount))
      else (offset, newlineCount))"

definition findStartOfLineBelow :: "relativeLineLocator \<Rightarrow> Tree \<Rightarrow> uint64 \<Rightarrow> uint64 \<times> uint64" where
  "findStartOfLineBelow loc tr pos =
     (let segmentIter = gcIterForTree tr pos ReadDirectionForward;
          nextSegmentIter = snd (nextSegmentOrEof segmentIter)
      in case findStartOfLineBelow_loop (rl_count loc) segmentIter nextSegmentIter 0 0 of
           (offset, newlineCount) \<Rightarrow> (pos + offset, newlineCount))"

definition findStartOfLine :: "relativeLineLocator \<Rightarrow> Tree \<Rightarrow> uint64 \<Rightarrow> uint64 \<times> uint64" where
  "findStartOfLine loc tr pos =
     (if rl_direction loc = ReadDirectionBackward then findStartOfLineAbove loc tr pos
      else findStartOfLineBelow loc tr pos)"

fun advanceToOffset_loop ::
  "uint64 \<Rightarrow> SegmentIter \<Rightarrow> uint64 \<Rightarrow> uint64 \<Rightarrow> uint64 \<Rightarrow> bool \<times> uint64 \<times> uint64 \<times> uint64" where
  "advanceToOffset_loop targetOffset [] prevPosOffset posOffset gcOffset =
     (gcOffset < targetOffset, prevPosOffset, posOffset, gcOffset)"
| "advanceToOffset_loop targetOffset (seg # rest) prevPosOffset posOffset gcOffset =
     (if gcOffset < targetOffset then
        (if HasNewline seg then (True, prevPosOffset, posOffset, gcOffset)
         else advanceToOffset_loop targetOffset rest posOffset (posOffset + NumRunes seg)
                (gcOffset + 1))
      else (False, prevPosOffset, posOffset, gcOffset))"

definition advanceToOffset :: "Tree \<Rightarrow> uint64 \<Rightarrow> uint64 \<Rightarrow> uint64 \<times> uint64" where
  "advanceToOffset tr lineStartPos targetOffset =
     (case advanceToOffset_loop targetOffset
             (gcIterForTree tr lineStartPos ReadDirectionForward) 0 0 0 of
        (endOfLineOrFile, prevPosOffset, posOffset, gcOffset) \<Rightarrow>
          if endOfLineOrFile then
            (lineStartPos + prevPosOffset, if gcOffset > 0 then gcOffset - 1 else gcOffset)
          else (lineStartPos + posOffset, gcOffset))"

definition relativeLineLocator_Locate :: "relativeLineLocator \<Rightarrow> State \<Rightarrow> cursorState" where
  "relativeLineLocator_Locate loc state =
     (let targetOffset = findOffsetFromLineStart state in
      case findStartOfLine loc (tree state) (position (cursor state)) of
        (lineStartPos, newlineCount) \<Rightarrow>
          if newlineCount = 0 then cursor state
          else (case advanceToOffset (tree state) lineStartPos targetOffset of
                  (newPos, actualOffset) \<Rightarrow>
                    \<lparr>position = newPos, logicalOffset = targetOffset - actualOffset\<rparr>))"

text \<open>
  A buffer of ASCII text without carriage returns: every character is a cluster of its own.
\<close>

definition asciiBuffer :: "string \<Rightarrow> Tree" where
  "asciiBuffer s = map (\<lambda>c. [word_of_nat (of_char c)]) s"

lemmas locate_defs = relativeLineLocator_Locate_def findOffsetFromLineStart_def findStartOfLine_def
  findStartOfLineBelow_def findStartOfLineAbove_def advanceToOffset_def gcIterForTree_def
  nextSegmentOrEof_def HasNewline_def NumRunes_def asciiBuffer_def

subsection \<open>Lemmas about the clusters and the loops\<close>

lemma concat_clustersFrom: "concat (clustersFrom n t) = drop n (concat t)"
  by (induction t arbitrary: n) auto

lemma clustersBefore_all: "[] \<notin> set t \<Longrightarrow> clustersBefore (length (concat t)) t = rev t"
  by (induction t) auto

lemma clustersFrom_prefix:
  "[] \<notin> set pre \<Longrightarrow> clustersFrom (length (concat pre)) (pre @ rest) = clustersFrom 0 rest"
  by (induction pre) auto

lemma clustersFrom_0: "clustersFrom 0 t = t"
  by (cases t) auto

lemma clustersBefore_0: "clustersBefore 0 t = []"
  by (cases t) auto

lemma unat_of_nat_eq: "n < 2 ^ 64 \<Longrightarrow> unat (word_of_nat n :: uint64) = n"
  by (simp add: unat_of_nat)

lemma clustersBefore_prefix:
  "[] \<notin> set pre \<Longrightarrow> g \<noteq> [] \<Longrightarrow>
   clustersBefore (length (concat pre) + length g) (pre @ g # post) = g # rev pre"
  by (induction pre) (auto simp: clustersBefore_0)

lemma unat_NumChars: "length (concat t) < 2 ^ 64 \<Longrightarrow> unat (NumChars t) = length (concat t)"
  by (simp add: NumChars_def unat_of_nat_eq)

lemma at_end:
  assumes "[] \<notin> set t" and "length (concat t) < 2 ^ 64"
  shows "findPrevGraphemeCluster t (NumChars t) 1 =
     (if t = [] then 0 else if HasNewline (last t) then NumChars t
      else word_of_nat (length (concat (butlast t))))"
proof (cases t rule: rev_cases)
  case Nil
  then show ?thesis
    by (simp add: findPrevGraphemeCluster_def gcIterForTree_def nextSegmentOrEof_def NumChars_def)
next
  case (snoc pre g)
  have "gcIterForTree t (NumChars t) ReadDirectionBackward = g # rev pre"
    using clustersBefore_all [OF assms(1)] unat_NumChars [OF assms(2)] snoc
    by (simp add: gcIterForTree_def)
  then show ?thesis
    using snoc by (simp add: findPrevGraphemeCluster_def nextSegmentOrEof_def NumChars_def NumRunes_def)
qed

lemma on_newline:
  assumes "[] \<notin> set pre" and "HasNewline nl" and "length (concat (pre @ nl # post)) < 2 ^ 64"
  shows "findNewlineAtPos (pre @ nl # post) (word_of_nat (length (concat pre)))
           = (True, word_of_nat (length (concat pre)) + word_of_nat (length nl))"
    and "findPrevGraphemeCluster (pre @ nl # post) (word_of_nat (length (concat pre)) + word_of_nat (length nl)) 2
           = (if pre = [] \<or> HasNewline (last pre) then word_of_nat (length (concat pre))
              else word_of_nat (length (concat (butlast pre))))"
proof -
  have ne: "nl \<noteq> []" using assms(2) by (auto simp: HasNewline_def)
  have u: "unat (word_of_nat (length (concat pre)) :: uint64) = length (concat pre)"
    using assms(3) by (simp add: unat_of_nat_eq)
  have u2: "unat (word_of_nat (length (concat pre)) + word_of_nat (length nl) :: uint64)
      = length (concat pre) + length nl"
    using assms(3) unat_of_nat_eq [of "length (concat pre) + length nl"] by simp
  show "findNewlineAtPos (pre @ nl # post) (word_of_nat (length (concat pre)))
           = (True, word_of_nat (length (concat pre)) + word_of_nat (length nl))"
    using clustersFrom_prefix [OF assms(1), of "nl # post"] assms(2)
    by (simp add: findNewlineAtPos_def gcIterForTree_def u nextSegmentOrEof_def NumRunes_def)
  have it: "gcIterForTree (pre @ nl # post)
      (word_of_nat (length (concat pre)) + word_of_nat (length nl)) ReadDirectionBackward
      = nl # rev pre"
    unfolding gcIterForTree_def u2 using clustersBefore_prefix [OF assms(1) ne] by simp
  show "findPrevGraphemeCluster (pre @ nl # post) (word_of_nat (length (concat pre)) + word_of_nat (length nl)) 2
           = (if pre = [] \<or> HasNewline (last pre) then word_of_nat (length (concat pre))
              else word_of_nat (length (concat (butlast pre))))"
  proof (cases pre rule: rev_cases)
    case Nil
    then show ?thesis
      unfolding findPrevGraphemeCluster_def it by (simp add: nextSegmentOrEof_def)
  next
    case (snoc pp g)
    then show ?thesis
      unfolding findPrevGraphemeCluster_def it
      by (simp add: nextSegmentOrEof_def NumRunes_def)
  qed
qed

lemma word_of_nat_less_NumChars:
  assumes "length (concat (pre @ g # post)) < 2 ^ 64" and "g \<noteq> []"
  shows "\<not> (word_of_nat (length (concat pre)) \<ge> NumChars (pre @ g # post))"
proof -
  have "unat (word_of_nat (length (concat pre)) :: uint64) = length (concat pre)"
    using assms(1) by (simp add: unat_of_nat_eq)
  moreover have "unat (NumChars (pre @ g # post)) = length (concat (pre @ g # post))"
    by (rule unat_NumChars [OF assms(1)])
  ultimately show ?thesis
    using assms(2) by (simp add: word_le_nat_alt)
qed

lemma above_no_newline:
  "\<forall>seg \<in> set segs. \<not> HasNewline seg \<Longrightarrow>
   snd (findStartOfLineAbove_loop cnt segs off nc) = nc"
  by (induction segs arbitrary: off) auto

lemma snd_nextSegmentOrEof: "snd (nextSegmentOrEof iter) = tl iter"
  by (cases iter) (simp_all add: nextSegmentOrEof_def)

lemma fst_nextSegmentOrEof: "(fst (nextSegmentOrEof iter) = None) = (iter = [])"
  by (cases iter) (simp_all add: nextSegmentOrEof_def)

lemma below_no_newline:
  "\<forall>seg \<in> set (butlast segs). \<not> HasNewline seg \<Longrightarrow>
   snd (findStartOfLineBelow_loop cnt segs (tl segs) off nc) = nc"
proof (induction segs arbitrary: off)
  case Nil
  show ?case by simp
next
  case (Cons seg rest)
  show ?case
  proof (cases "rest = []")
    case True
    then show ?thesis by (simp add: fst_nextSegmentOrEof)
  next
    case False
    with Cons.prems have n: "\<not> HasNewline seg" and b: "\<forall>s \<in> set (butlast rest). \<not> HasNewline s"
      by auto
    have "findStartOfLineBelow_loop cnt (seg # rest) (tl (seg # rest)) off nc =
        (if nc < cnt then findStartOfLineBelow_loop cnt rest (tl rest) (off + NumRunes seg) nc
         else (off, nc))"
      using n by (simp add: snd_nextSegmentOrEof)
    with Cons.IH [OF b, of "off + NumRunes seg"] show ?thesis by simp
  qed
qed

lemma clustersFrom_final:
  "n \<le> length (concat pre) \<Longrightarrow> clustersFrom n (pre @ [nl]) = clustersFrom n pre @ [nl]"
  by (induction pre arbitrary: n) auto

lemma below_offset:
  "HasNewline nl \<Longrightarrow>
   \<exists>m \<le> length (concat xs).
     fst (findStartOfLineBelow_loop cnt (xs @ [nl]) (tl (xs @ [nl])) off nc) = off + word_of_nat m"
proof (induction xs arbitrary: off nc)
  case Nil
  then show ?case by (simp add: nextSegmentOrEof_def)
next
  case (Cons x xs)
  show ?case
  proof (cases "nc < cnt")
    case False
    then have "fst (findStartOfLineBelow_loop cnt ((x # xs) @ [nl]) (tl ((x # xs) @ [nl])) off nc)
        = off + word_of_nat 0"
      by simp
    then show ?thesis by blast
  next
    case True
    let ?nc = "if HasNewline x then nc + 1 else nc"
    from Cons.IH [OF Cons.prems, of "off + NumRunes x" ?nc] obtain m where
      m: "m \<le> length (concat xs)"
      "fst (findStartOfLineBelow_loop cnt (xs @ [nl]) (tl (xs @ [nl])) (off + NumRunes x) ?nc)
         = off + NumRunes x + word_of_nat m"
      by blast
    from True m(2) have "fst (findStartOfLineBelow_loop cnt ((x # xs) @ [nl]) (tl ((x # xs) @ [nl])) off nc)
        = off + word_of_nat (length x + m)"
      by (simp add: NumRunes_def snd_nextSegmentOrEof fst_nextSegmentOrEof add.assoc)
    moreover have "length x + m \<le> length (concat (x # xs))" using m(1) by simp
    ultimately show ?thesis by blast
  qed
qed

lemma advance_offsets:
  "HasNewline nl \<Longrightarrow>
   advanceToOffset_loop target (ys @ [nl]) prev posO gc = (e, prev', pos', gc') \<Longrightarrow>
   \<exists>m1 m2. m1 \<le> length (concat ys) \<and> m2 \<le> length (concat ys)
      \<and> pos' = posO + word_of_nat m2 \<and> (prev' = prev \<or> prev' = posO + word_of_nat m1)"
proof (induction ys arbitrary: prev posO gc)
  case Nil
  then show ?case by (auto split: if_splits)
next
  case (Cons y ys)
  show ?case
  proof (cases "gc < target \<and> \<not> HasNewline y")
    case False
    with Cons.prems(2) have "prev' = prev" "pos' = posO"
      by (auto split: if_splits)
    then show ?thesis by (intro exI [of _ 0]) simp
  next
    case True
    with Cons.prems(2) have
      "advanceToOffset_loop target (ys @ [nl]) posO (posO + NumRunes y) (gc + 1) = (e, prev', pos', gc')"
      by simp
    from Cons.IH [OF Cons.prems(1) this] obtain m1 m2 where
      m: "m1 \<le> length (concat ys)" "m2 \<le> length (concat ys)"
      "pos' = posO + NumRunes y + word_of_nat m2"
      "prev' = posO \<or> prev' = posO + NumRunes y + word_of_nat m1"
      by blast
    have p: "pos' = posO + word_of_nat (length y + m2)"
      using m(3) by (simp add: NumRunes_def add.assoc)
    from m(4) have "prev' = posO + word_of_nat 0 \<or> prev' = posO + word_of_nat (length y + m1)"
      by (simp add: NumRunes_def add.assoc)
    moreover have "0 \<le> length (concat (y # ys))" "length y + m1 \<le> length (concat (y # ys))"
      using m(1) by simp_all
    ultimately obtain m1' where "m1' \<le> length (concat (y # ys))" "prev' = posO + word_of_nat m1'"
      by blast
    with p m(2) show ?thesis
      by (intro exI [of _ m1'] exI [of _ "length y + m2"]) simp
  qed
qed

lemma unat_add_of_nat:
  "unat a + m < 2 ^ 64 \<Longrightarrow> unat (a + word_of_nat m :: uint64) = unat a + m"
  using unat_add_lem [of a "word_of_nat m :: uint64"] unat_of_nat_eq [of m] by simp

lemma below_not_crossing:
  assumes fwd: "rl_direction loc = ReadDirectionForward"
    and t: "tree state = pre @ [nl]" and nl: "HasNewline nl"
    and len: "length (concat (tree state)) < 2 ^ 64"
    and cur: "unat (position (cursor state)) \<le> length (concat pre)"
  shows "unat (position (relativeLineLocator_Locate loc state)) \<le> length (concat pre)"
proof -
  let ?p = "position (cursor state)"
  let ?n = "unat ?p"
  let ?xs = "clustersFrom ?n pre"
  have it: "gcIterForTree (tree state) ?p ReadDirectionForward = ?xs @ [nl]"
    by (simp add: gcIterForTree_def t clustersFrom_final [OF cur])
  have lx: "length (concat ?xs) = length (concat pre) - ?n"
    by (simp add: concat_clustersFrom)
  obtain off nc where r: "findStartOfLineBelow_loop (rl_count loc) (?xs @ [nl]) (tl (?xs @ [nl])) 0 0
      = (off, nc)"
    by (cases "findStartOfLineBelow_loop (rl_count loc) (?xs @ [nl]) (tl (?xs @ [nl])) 0 0")
  from below_offset [OF nl, of ?xs "rl_count loc" 0 0] r obtain m where
    m: "m \<le> length (concat ?xs)" "off = word_of_nat m"
    by auto
  have nm: "?n + m \<le> length (concat pre)" using m(1) lx cur by simp
  have lp: "length (concat pre) < 2 ^ 64" using len t by simp
  have us: "unat (?p + off) = ?n + m"
    unfolding m(2) using nm lp by (intro unat_add_of_nat) simp
  have fs: "findStartOfLine loc (tree state) ?p = (?p + off, nc)"
    using r fwd by (simp add: findStartOfLine_def findStartOfLineBelow_def it snd_nextSegmentOrEof)
  show ?thesis
  proof (cases "nc = 0")
    case True
    with fs cur show ?thesis by (simp add: relativeLineLocator_Locate_def)
  next
    case False
    let ?ys = "clustersFrom (?n + m) pre"
    have it2: "gcIterForTree (tree state) (?p + off) ReadDirectionForward = ?ys @ [nl]"
      by (simp add: gcIterForTree_def t us clustersFrom_final [OF nm])
    have ly: "length (concat ?ys) = length (concat pre) - (?n + m)"
      by (simp add: concat_clustersFrom)
    let ?target = "findOffsetFromLineStart state"
    obtain e prev' pos' gc' where a: "advanceToOffset_loop ?target (?ys @ [nl]) 0 0 0 = (e, prev', pos', gc')"
      by (cases "advanceToOffset_loop ?target (?ys @ [nl]) 0 0 0") auto
    from advance_offsets [OF nl a] obtain m1 m2 where
      mm: "m1 \<le> length (concat ?ys)" "m2 \<le> length (concat ?ys)" "pos' = word_of_nat m2"
      "prev' = 0 \<or> prev' = word_of_nat m1"
      by auto
    have b2: "unat (?p + off + pos') \<le> length (concat pre)"
    proof -
      have "unat (?p + off + word_of_nat m2) = unat (?p + off) + m2"
        using us nm mm(2) ly lp by (intro unat_add_of_nat) simp
      with us mm(2) ly nm show ?thesis unfolding mm(3) by simp
    qed
    have b1: "unat (?p + off + prev') \<le> length (concat pre)"
    proof -
      have "\<exists>k \<le> length (concat ?ys). prev' = word_of_nat k"
      proof (cases "prev' = 0")
        case True
        then have "0 \<le> length (concat ?ys) \<and> prev' = word_of_nat 0" by simp
        then show ?thesis by blast
      next
        case False
        with mm(1,4) show ?thesis by blast
      qed
      then obtain k where k: "k \<le> length (concat ?ys)" "prev' = word_of_nat k" by blast
      have "unat (?p + off + word_of_nat k) = unat (?p + off) + k"
        using us nm k(1) ly lp by (intro unat_add_of_nat) simp
      with us k(1) ly nm show ?thesis unfolding k(2) by simp
    qed
    have "position (relativeLineLocator_Locate loc state)
        = (if e then ?p + off + prev' else ?p + off + pos')"
      using fs False a by (simp add: relativeLineLocator_Locate_def Let_def advanceToOffset_def it2)
    with b1 b2 show ?thesis by simp
  qed
qed


subsection \<open>Claims about the locators\<close>

text \<open>
  Claim C10. Both constructors panic on a count of zero and return the locator, with the
  arguments as its fields, for every count of at least one.
\<close>

theorem New_locators_count:
  "NewCharInLineLocator d 0 b = Inl CountMustBeGreaterThanZero
   \<and> NewRelativeLineLocator d 0 = Inl CountMustBeGreaterThanZero
   \<and> (1 \<le> c \<longrightarrow>
        NewCharInLineLocator d c b
          = Inr \<lparr>cil_direction = d, cil_count = c, cil_includeEndOfLineOrFile = b\<rparr>
        \<and> NewRelativeLineLocator d c = Inr \<lparr>rl_direction = d, rl_count = c\<rparr>)"
  by (auto simp: NewCharInLineLocator_def NewRelativeLineLocator_def)

theorem New_locators_count_witness:
  "(1 :: uint64) \<le> 3
   \<and> NewCharInLineLocator ReadDirectionForward 3 True
       = Inr \<lparr>cil_direction = ReadDirectionForward, cil_count = 3,
              cil_includeEndOfLineOrFile = True\<rparr>
   \<and> NewRelativeLineLocator ReadDirectionBackward 3
       = Inr \<lparr>rl_direction = ReadDirectionBackward, rl_count = 3\<rparr>"
  using New_locators_count [of ReadDirectionForward True 3]
    New_locators_count [of ReadDirectionBackward True 3]
  by simp

text \<open>
  Claim C4, as stated, fails: from position 5 of \<open>abcdef\<newline>xy\<newline>pqrstu\<close> the locator does
  not return position 9 with logical offset 3.
\<close>

theorem relativeLine_scenario_counterexample:
  "relativeLineLocator_Locate \<lparr>rl_direction = ReadDirectionForward, rl_count = 1\<rparr>
     \<lparr>tree = asciiBuffer ''abcdef\<newline>xy\<newline>pqrstu'',
      cursor = \<lparr>position = 5, logicalOffset = 0\<rparr>\<rparr>
   \<noteq> \<lparr>position = 9, logicalOffset = 3\<rparr>"
  by (simp add: locate_defs)

text \<open>
  Claim C4, amended. The locator built for one line forward moves the cursor from
  position 5 to position 8, the last character of the line \<open>xy\<close>, with logical offset 4,
  and from there to position 15 with logical offset 0.
\<close>

theorem relativeLine_scenario:
  "NewRelativeLineLocator ReadDirectionForward 1
     = Inr \<lparr>rl_direction = ReadDirectionForward, rl_count = 1\<rparr>
   \<and> relativeLineLocator_Locate \<lparr>rl_direction = ReadDirectionForward, rl_count = 1\<rparr>
       \<lparr>tree = asciiBuffer ''abcdef\<newline>xy\<newline>pqrstu'',
        cursor = \<lparr>position = 5, logicalOffset = 0\<rparr>\<rparr>
     = \<lparr>position = 8, logicalOffset = 4\<rparr>
   \<and> relativeLineLocator_Locate \<lparr>rl_direction = ReadDirectionForward, rl_count = 1\<rparr>
       \<lparr>tree = asciiBuffer ''abcdef\<newline>xy\<newline>pqrstu'',
        cursor = \<lparr>position = 8, logicalOffset = 4\<rparr>\<rparr>
     = \<lparr>position = 15, logicalOffset = 0\<rparr>"
  by (simp add: locate_defs NewRelativeLineLocator_def)

text \<open>
  Claim C3, as stated, fails: with two newlines before the cursor and a count of five, and
  with one newline after the cursor and a count of two, the cursor moves.
\<close>

theorem relativeLine_abort_counterexample:
  "length (filter HasNewline
       (gcIterForTree (asciiBuffer ''ab\<newline>cd\<newline>ef'') 6 ReadDirectionBackward)) < unat (5 :: uint64)
   \<and> relativeLineLocator_Locate \<lparr>rl_direction = ReadDirectionBackward, rl_count = 5\<rparr>
       \<lparr>tree = asciiBuffer ''ab\<newline>cd\<newline>ef'', cursor = \<lparr>position = 6, logicalOffset = 0\<rparr>\<rparr>
     = \<lparr>position = 0, logicalOffset = 0\<rparr>
   \<and> length (filter HasNewline
       (gcIterForTree (asciiBuffer ''ab\<newline>cd'') 0 ReadDirectionForward)) < unat (2 :: uint64)
   \<and> relativeLineLocator_Locate \<lparr>rl_direction = ReadDirectionForward, rl_count = 2\<rparr>
       \<lparr>tree = asciiBuffer ''ab\<newline>cd'', cursor = \<lparr>position = 0, logicalOffset = 0\<rparr>\<rparr>
     \<noteq> \<lparr>position = 0, logicalOffset = 0\<rparr>"
  by (simp add: locate_defs)

text \<open>
  Claim C3, amended. The locator leaves the cursor state unchanged whenever no cluster in
  the given direction from the cursor holds a newline, where, moving forward, the last
  cluster of the buffer does not count; and, moving forward in a buffer that ends with a
  newline, a cursor at or before that newline is never moved past it.
\<close>

theorem relativeLine_abort:
  "(rl_direction loc = ReadDirectionBackward
      \<and> (\<forall>seg \<in> set (gcIterForTree (tree state) (position (cursor state)) ReadDirectionBackward).
            \<not> HasNewline seg)
      \<longrightarrow> relativeLineLocator_Locate loc state = cursor state)
   \<and> (rl_direction loc = ReadDirectionForward
      \<and> (\<forall>seg \<in> set (butlast
              (gcIterForTree (tree state) (position (cursor state)) ReadDirectionForward)).
            \<not> HasNewline seg)
      \<longrightarrow> relativeLineLocator_Locate loc state = cursor state)
   \<and> (rl_direction loc = ReadDirectionForward
      \<and> tree state = pre @ [nl] \<and> HasNewline nl
      \<and> length (concat (tree state)) < 2 ^ 64
      \<and> unat (position (cursor state)) \<le> length (concat pre)
      \<longrightarrow> unat (position (relativeLineLocator_Locate loc state)) \<le> length (concat pre))"
proof (intro conjI impI)
  assume a: "rl_direction loc = ReadDirectionBackward
      \<and> (\<forall>seg \<in> set (gcIterForTree (tree state) (position (cursor state)) ReadDirectionBackward).
            \<not> HasNewline seg)"
  then have "snd (findStartOfLineAbove_loop (rl_count loc)
      (gcIterForTree (tree state) (position (cursor state)) ReadDirectionBackward) 0 0) = 0"
    by (intro above_no_newline) simp
  with a show "relativeLineLocator_Locate loc state = cursor state"
    by (auto simp: relativeLineLocator_Locate_def findStartOfLine_def findStartOfLineAbove_def
        split: prod.splits)
next
  assume a: "rl_direction loc = ReadDirectionForward
      \<and> (\<forall>seg \<in> set (butlast
              (gcIterForTree (tree state) (position (cursor state)) ReadDirectionForward)).
            \<not> HasNewline seg)"
  let ?it = "gcIterForTree (tree state) (position (cursor state)) ReadDirectionForward"
  from a have "snd (findStartOfLineBelow_loop (rl_count loc) ?it (tl ?it) 0 0) = 0"
    by (intro below_no_newline) simp
  with a show "relativeLineLocator_Locate loc state = cursor state"
    by (auto simp: relativeLineLocator_Locate_def findStartOfLine_def findStartOfLineBelow_def
        snd_nextSegmentOrEof Let_def split: prod.splits)
next
  assume "rl_direction loc = ReadDirectionForward
      \<and> tree state = pre @ [nl] \<and> HasNewline nl
      \<and> length (concat (tree state)) < 2 ^ 64
      \<and> unat (position (cursor state)) \<le> length (concat pre)"
  then show "unat (position (relativeLineLocator_Locate loc state)) \<le> length (concat pre)"
    using below_not_crossing [of loc state pre nl] by blast
qed

theorem relativeLine_abort_witness:
  "relativeLineLocator_Locate \<lparr>rl_direction = ReadDirectionBackward, rl_count = 2\<rparr>
     \<lparr>tree = asciiBuffer ''ab\<newline>cd'', cursor = \<lparr>position = 1, logicalOffset = 7\<rparr>\<rparr>
     = \<lparr>position = 1, logicalOffset = 7\<rparr>
   \<and> relativeLineLocator_Locate \<lparr>rl_direction = ReadDirectionForward, rl_count = 1\<rparr>
     \<lparr>tree = asciiBuffer ''ab\<newline>cd\<newline>'', cursor = \<lparr>position = 4, logicalOffset = 0\<rparr>\<rparr>
     = \<lparr>position = 4, logicalOffset = 0\<rparr>
   \<and> unat (position (relativeLineLocator_Locate \<lparr>rl_direction = ReadDirectionForward, rl_count = 3\<rparr>
     \<lparr>tree = asciiBuffer ''ab\<newline>cd'' @ [[10]], cursor = \<lparr>position = 1, logicalOffset = 0\<rparr>\<rparr>))
     \<le> length (concat (asciiBuffer ''ab\<newline>cd''))"
proof -
  have 1: "relativeLineLocator_Locate \<lparr>rl_direction = ReadDirectionBackward, rl_count = 2\<rparr>
     \<lparr>tree = asciiBuffer ''ab\<newline>cd'', cursor = \<lparr>position = 1, logicalOffset = 7\<rparr>\<rparr>
     = \<lparr>position = 1, logicalOffset = 7\<rparr>"
    using relativeLine_abort
      [of "\<lparr>rl_direction = ReadDirectionBackward, rl_count = 2\<rparr>"
        "\<lparr>tree = asciiBuffer ''ab\<newline>cd'', cursor = \<lparr>position = 1, logicalOffset = 7\<rparr>\<rparr>"]
    by (simp add: gcIterForTree_def asciiBuffer_def HasNewline_def)
  have 2: "relativeLineLocator_Locate \<lparr>rl_direction = ReadDirectionForward, rl_count = 1\<rparr>
     \<lparr>tree = asciiBuffer ''ab\<newline>cd\<newline>'', cursor = \<lparr>position = 4, logicalOffset = 0\<rparr>\<rparr>
     = \<lparr>position = 4, logicalOffset = 0\<rparr>"
    using relativeLine_abort
      [of "\<lparr>rl_direction = ReadDirectionForward, rl_count = 1\<rparr>"
        "\<lparr>tree = asciiBuffer ''ab\<newline>cd\<newline>'', cursor = \<lparr>position = 4, logicalOffset = 0\<rparr>\<rparr>"]
    by (simp add: gcIterForTree_def asciiBuffer_def HasNewline_def)
  have 3: "unat (position (relativeLineLocator_Locate \<lparr>rl_direction = ReadDirectionForward, rl_count = 3\<rparr>
     \<lparr>tree = asciiBuffer ''ab\<newline>cd'' @ [[10]], cursor = \<lparr>position = 1, logicalOffset = 0\<rparr>\<rparr>))
     \<le> length (concat (asciiBuffer ''ab\<newline>cd''))"
    using relativeLine_abort
      [of "\<lparr>rl_direction = ReadDirectionForward, rl_count = 3\<rparr>"
        "\<lparr>tree = asciiBuffer ''ab\<newline>cd'' @ [[10]], cursor = \<lparr>position = 1, logicalOffset = 0\<rparr>\<rparr>"
        "asciiBuffer ''ab\<newline>cd''" "[10]"]
    by (simp add: asciiBuffer_def HasNewline_def)
  from 1 2 3 show ?thesis by blast
qed

text \<open>
  Claim C6, as stated, fails. At the end of a buffer whose last cluster is a newline the
  locator returns the end position, not the start of the last cluster; and where it leaves
  the position alone it still sets the logical offset to zero.
\<close>

theorem ontoLine_counterexample:
  "position (ontoLineLocator_Locate
      \<lparr>tree = asciiBuffer ''ab\<newline>'', cursor = \<lparr>position = 3, logicalOffset = 0\<rparr>\<rparr>) = 3
   \<and> word_of_nat (length (concat (butlast (asciiBuffer ''ab\<newline>'')))) = (2 :: uint64)
   \<and> ontoLineLocator_Locate \<lparr>tree = asciiBuffer ''ab'', cursor = \<lparr>position = 1, logicalOffset = 2\<rparr>\<rparr>
     \<noteq> \<lparr>position = 1, logicalOffset = 2\<rparr>"
  by (simp add: ontoLineLocator_Locate_def findPrevGraphemeCluster_def findNewlineAtPos_def
      NumChars_def gcIterForTree_def nextSegmentOrEof_def HasNewline_def NumRunes_def
      asciiBuffer_def)

text \<open>
  Claim C6, amended. In a buffer of fewer than \<open>2^64\<close> runes: with the cursor at or past the
  end, the locator returns the start of the last cluster, unless that cluster is a newline
  (it returns the end position, on the empty last line) or the buffer is empty (it returns
  0). With the cursor at the start of a newline cluster it returns the start of the cluster
  before it, unless there is none or that one is a newline too (the line is empty and the
  position stays). With the cursor at the start of any other cluster the position stays.
\<close>

theorem ontoLine_position:
  assumes "[] \<notin> set (tree state)" and "length (concat (tree state)) < 2 ^ 64"
  shows "(position (cursor state) \<ge> NumChars (tree state) \<longrightarrow>
            position (ontoLineLocator_Locate state) =
              (if tree state = [] then 0
               else if HasNewline (last (tree state)) then NumChars (tree state)
               else word_of_nat (length (concat (butlast (tree state))))))
       \<and> (\<forall>pre g post. tree state = pre @ g # post
              \<and> position (cursor state) = word_of_nat (length (concat pre)) \<longrightarrow>
            position (ontoLineLocator_Locate state) =
              (if HasNewline g then
                 (if pre = [] \<or> HasNewline (last pre) then position (cursor state)
                  else word_of_nat (length (concat (butlast pre))))
               else position (cursor state)))"
proof (intro conjI impI allI)
  assume "position (cursor state) \<ge> NumChars (tree state)"
  then show "position (ontoLineLocator_Locate state) =
              (if tree state = [] then 0
               else if HasNewline (last (tree state)) then NumChars (tree state)
               else word_of_nat (length (concat (butlast (tree state)))))"
    using at_end [OF assms] by (simp add: ontoLineLocator_Locate_def)
next
  fix pre g post
  assume a: "tree state = pre @ g # post
     \<and> position (cursor state) = word_of_nat (length (concat pre))"
  have g: "g \<noteq> []" and pre: "[] \<notin> set pre" using assms(1) a by auto
  have lt: "\<not> (position (cursor state) \<ge> NumChars (tree state))"
    using word_of_nat_less_NumChars [of pre g post] assms(2) a g by simp
  show "position (ontoLineLocator_Locate state) =
              (if HasNewline g then
                 (if pre = [] \<or> HasNewline (last pre) then position (cursor state)
                  else word_of_nat (length (concat (butlast pre))))
               else position (cursor state))"
  proof (cases "HasNewline g")
    case True
    from on_newline [OF pre True, of post] assms(2) a lt True show ?thesis
      by (simp add: ontoLineLocator_Locate_def)
  next
    case False
    have "findNewlineAtPos (tree state) (position (cursor state)) = (False, 0)"
      using clustersFrom_prefix [OF pre, of "g # post"] a False assms(2)
      by (simp add: findNewlineAtPos_def gcIterForTree_def unat_of_nat_eq nextSegmentOrEof_def)
    with lt False show ?thesis
      by (simp add: ontoLineLocator_Locate_def)
  qed
qed

theorem ontoLine_position_witness:
  "position (ontoLineLocator_Locate
      \<lparr>tree = asciiBuffer ''ab'', cursor = \<lparr>position = 9, logicalOffset = 0\<rparr>\<rparr>) = 1
   \<and> position (ontoLineLocator_Locate
      \<lparr>tree = asciiBuffer ''ab\<newline>c'', cursor = \<lparr>position = 2, logicalOffset = 0\<rparr>\<rparr>) = 1"
proof -
  have 1: "position (ontoLineLocator_Locate
      \<lparr>tree = asciiBuffer ''ab'', cursor = \<lparr>position = 9, logicalOffset = 0\<rparr>\<rparr>) = 1"
    using ontoLine_position
      [of "\<lparr>tree = asciiBuffer ''ab'', cursor = \<lparr>position = 9, logicalOffset = 0\<rparr>\<rparr>"]
    by (simp add: asciiBuffer_def NumChars_def HasNewline_def)
  have 2: "position (ontoLineLocator_Locate
      \<lparr>tree = asciiBuffer ''ab\<newline>c'', cursor = \<lparr>position = 2, logicalOffset = 0\<rparr>\<rparr>) = 1"
    using ontoLine_position
      [of "\<lparr>tree = asciiBuffer ''ab\<newline>c'', cursor = \<lparr>position = 2, logicalOffset = 0\<rparr>\<rparr>",
        THEN conjunct2, rule_format, of "asciiBuffer ''ab''" "[10]" "asciiBuffer ''c''"]
    by (simp add: asciiBuffer_def HasNewline_def)
  from 1 2 show ?thesis by blast
qed

section \<open>Input modes (input/mode.go)\<close>

text \<open>
  Modelled from the spec: the result of a step of the input VM (package \<open>vm\<close>, not among
  the files at hand). The spec gives it the fields \<open>accepted\<close>, \<open>captures\<close> (each with an id
  and the slice of events it covers) and \<open>reset\<close>. The VM itself, the conversion of a
  terminal event, the derivation of command parameters from captures and the empty action
  are parameters of the mode, since their code is absent.
\<close>

record Capture =
  Id :: nat
  StartIdx :: nat
  Length :: nat

record Result =
  Accepted :: bool
  Captures :: "Capture list"
  Reset :: bool

datatype Key = KeyRune | KeyOther nat

record EventKey =
  Key :: Key
  Rune :: rune

record ('cfg, 'params, 'action) Command =
  Name :: string
  BuildAction :: "'cfg \<Rightarrow> 'params \<Rightarrow> 'action"

record ('rt, 'ev, 'cfg, 'params, 'action) vmMode =
  name :: string
  runtime :: 'rt
  eventBuffer :: "'ev list"
  inputBuffer :: "rune list"
  commands :: "('cfg, 'params, 'action) Command list"

record ('rt, 'ev, 'params, 'action) vmDeps =
  eventKeyToVmEvent :: "EventKey \<Rightarrow> 'ev"
  ProcessEvent :: "'rt \<Rightarrow> 'ev \<Rightarrow> Result \<times> 'rt"
  capturesToCommandParams :: "Capture list \<Rightarrow> 'ev list \<Rightarrow> 'params"
  EmptyAction :: 'action

text \<open>The loop over \<open>result.Captures\<close>, left at the first capture that names a command.\<close>

fun ProcessKeyEvent_loop ::
  "('rt, 'ev, 'params, 'action) vmDeps \<Rightarrow> ('cfg, 'params, 'action) Command list \<Rightarrow> 'ev list
   \<Rightarrow> 'cfg \<Rightarrow> Capture list \<Rightarrow> Capture list \<Rightarrow> 'action \<Rightarrow> 'action" where
  "ProcessKeyEvent_loop deps cmds events config captures [] action = action"
| "ProcessKeyEvent_loop deps cmds events config captures (capture # rest) action =
     (if Id capture < length cmds then
        BuildAction (cmds ! Id capture) config (capturesToCommandParams deps captures events)
      else ProcessKeyEvent_loop deps cmds events config captures rest action)"

definition ProcessKeyEvent ::
  "('rt, 'ev, 'params, 'action) vmDeps \<Rightarrow> ('rt, 'ev, 'cfg, 'params, 'action) vmMode
   \<Rightarrow> EventKey \<Rightarrow> 'cfg \<Rightarrow> 'action \<times> ('rt, 'ev, 'cfg, 'params, 'action) vmMode" where
  "ProcessKeyEvent deps m event config =
     (let vmEvent = eventKeyToVmEvent deps event;
          m1 = m\<lparr>eventBuffer := eventBuffer m @ [vmEvent]\<rparr>;
          m2 = (if Key event = KeyRune then m1\<lparr>inputBuffer := inputBuffer m1 @ [Rune event]\<rparr>
                else m1);
          (result, rt) = ProcessEvent deps (runtime m2) vmEvent;
          m3 = m2\<lparr>runtime := rt\<rparr>;
          action =
            (if Accepted result then
               ProcessKeyEvent_loop deps (commands m3) (eventBuffer m3) config
                 (Captures result) (Captures result) (EmptyAction deps)
             else EmptyAction deps);
          m4 = (if Reset result then m3\<lparr>eventBuffer := [], inputBuffer := []\<rparr> else m3)
      in (action, m4))"

lemma ProcessKeyEvent_loop_find:
  "ProcessKeyEvent_loop deps cmds events config captures rest action =
     (case find (\<lambda>c. Id c < length cmds) rest of
        None \<Rightarrow> action
      | Some c \<Rightarrow> BuildAction (cmds ! Id c) config (capturesToCommandParams deps captures events))"
  by (induction rest) auto

lemma find_sorted_least:
  assumes "sorted (map f xs)" and "find (\<lambda>c. f c < (n :: nat)) xs = Some c"
  shows "\<forall>d \<in> set xs. f c \<le> f d"
proof
  fix d assume "d \<in> set xs"
  then obtain k where k: "k < length xs" "d = xs ! k" by (auto simp: in_set_conv_nth)
  from assms(2) obtain i where i: "i < length xs" "f (xs ! i) < n" "c = xs ! i"
    "\<forall>j < i. \<not> f (xs ! j) < n"
    by (auto simp: find_Some_iff)
  show "f c \<le> f d"
  proof (cases "k < i")
    case True
    with i(4) have "n \<le> f (xs ! k)" by auto
    with i(2,3) k(2) show ?thesis by simp
  next
    case False
    then have "i \<le> k" by simp
    with assms(1) k(1) have "map f xs ! i \<le> map f xs ! k"
      by (intro sorted_nth_mono) simp_all
    with i(1,3) k show ?thesis by simp
  qed
qed

lemma find_unique_least:
  assumes "find (\<lambda>c. f c < (n :: nat)) xs = Some c"
    and "\<forall>d \<in> set xs. f d < n \<longrightarrow> f d = f c"
  shows "\<forall>d \<in> set xs. f c \<le> f d"
proof
  fix d assume d: "d \<in> set xs"
  from assms(1) have "f c < n" by (auto simp: find_Some_iff)
  with assms(2) d show "f c \<le> f d" by (cases "f d < n") auto
qed

text \<open>
  Two example modes with two commands each. In the first the VM reports the capture of
  command 1 before the capture of command 0; in the second it reports the capture of
  command 0 and then a capture whose id is no command.
\<close>

definition twoCommands :: "(unit, nat, string) Command list" where
  "twoCommands =
     [\<lparr>Name = ''first'', BuildAction = (\<lambda>config params. ''first'')\<rparr>,
      \<lparr>Name = ''second'', BuildAction = (\<lambda>config params. ''second'')\<rparr>]"

definition acceptingDeps :: "Capture list \<Rightarrow> (unit, EventKey, nat, string) vmDeps" where
  "acceptingDeps captures =
     \<lparr>eventKeyToVmEvent = (\<lambda>event. event),
      ProcessEvent = (\<lambda>rt event. (\<lparr>Accepted = True, Captures = captures, Reset = True\<rparr>, rt)),
      capturesToCommandParams = (\<lambda>captures events. length events),
      EmptyAction = ''''\<rparr>"

definition twoCommandMode :: "(unit, EventKey, unit, nat, string) vmMode" where
  "twoCommandMode =
     \<lparr>name = ''normal'', runtime = (), eventBuffer = [], inputBuffer = [],
      commands = twoCommands\<rparr>"




section \<open>Regular expressions (internal/pkg/syntax/parser/regexp.go)\<close>

text \<open>
  The implementations of the interface \<open>Regexp\<close> are the constructors of one datatype; a
  type assertion such as \<open>regexp.(regexpEmpty)\<close> is a test for the constructor. A Go string
  is indexed by byte, as \<open>string\<close> here.
\<close>

datatype Regexp =
  regexpEmpty
  | regexpConcat Regexp Regexp
  | regexpUnion Regexp Regexp
  | regexpStar Regexp
  | regexpParenExpr Regexp
  | regexpChar char
  | regexpCharClass bool "char list"
  | regexpStartOfText
  | regexpEndOfText

datatype parse_error =
  UnexpectedEndOfRegexp
  | ExpectedClosingParen
  | UnexpectedClosingParen
  | ExpectedCharsBeforeUnion
  | ExpectedCharsBeforeStar
  | ExpectedCharsBeforePlus
  | ExpectedCharsBeforeQuestionMark
  | InvalidEscapeSequence
  | InvalidEscapeSequenceInClass
  | UnrecognizedEscapeSequenceInClass
  | ExpectedClosingBracket

text \<open>
  A parse returns a value, or one of the errors the source creates with \<open>errors.New\<close>, or
  panics because an index is out of range. \<open>byteAt\<close> is the indexing \<open>s[pos]\<close> with its
  bounds check.
\<close>

datatype 'a parsed = Ok 'a | Err parse_error | IndexOutOfRange

definition byteAt :: "string \<Rightarrow> nat \<Rightarrow> char option" where
  "byteAt s pos = (if pos < length s then Some (s ! pos) else None)"

definition parseEscapeSequence :: "string \<Rightarrow> nat \<Rightarrow> (Regexp \<times> nat) parsed" where
  "parseEscapeSequence s pos =
     (if pos + 1 \<ge> length s then Err InvalidEscapeSequence
      else (case byteAt s (pos + 1) of
              None \<Rightarrow> IndexOutOfRange
            | Some c \<Rightarrow> Ok (regexpChar c, pos + 2)))"

function parseCharacterClass_loop ::
  "string \<Rightarrow> nat \<Rightarrow> bool \<Rightarrow> char list \<Rightarrow> (Regexp \<times> nat) parsed" where
  "parseCharacterClass_loop s pos negated chars =
     (if pos < length s then
        (case byteAt s pos of
           None \<Rightarrow> IndexOutOfRange
         | Some b \<Rightarrow>
             if b = CHR '']'' then Ok (regexpCharClass negated chars, pos + 1)
             else if b = CHR 0x5C then
               (if pos + 1 \<ge> length s then Err InvalidEscapeSequenceInClass
                else (case byteAt s (pos + 1) of
                        None \<Rightarrow> IndexOutOfRange
                      | Some c \<Rightarrow>
                          if c = CHR ''['' \<or> c = CHR '']'' \<or> c = CHR ''^'' \<or> c = CHR 0x5C
                          then parseCharacterClass_loop s (pos + 2) negated (chars @ [c])
                          else Err UnrecognizedEscapeSequenceInClass))
             else parseCharacterClass_loop s (pos + 1) negated (chars @ [b]))
      else Err ExpectedClosingBracket)"
  by pat_completeness auto
termination
  by (relation "measure (\<lambda>(s, pos, negated, chars). length s - pos)") auto

declare parseCharacterClass_loop.simps [simp del]

definition parseCharacterClass :: "string \<Rightarrow> nat \<Rightarrow> (Regexp \<times> nat) parsed" where
  "parseCharacterClass s pos =
     (let pos1 = pos + 1 in
      if pos1 < length s \<and> byteAt s pos1 = Some (CHR ''^'')
      then parseCharacterClass_loop s (pos1 + 1) True []
      else parseCharacterClass_loop s pos1 False [])"

lemma parseCharacterClass_loop_advances:
  "parseCharacterClass_loop s pos negated chars = Ok (r, n) \<Longrightarrow> pos < n"
proof (induction s pos negated chars rule: parseCharacterClass_loop.induct)
  case (1 s pos negated chars)
  from "1.prems" "1.IH" show ?case
    by (simp only: parseCharacterClass_loop.simps [of s pos negated chars])
      (fastforce split: if_splits option.splits)
qed

lemma parseCharacterClass_advances: "parseCharacterClass s pos = Ok (r, n) \<Longrightarrow> pos < n"
  by (auto simp: parseCharacterClass_def Let_def split: if_splits
      dest!: parseCharacterClass_loop_advances)

text \<open>
  \<open>parseRegexp\<close> checks for the end of the pattern and then runs its loop, which is
  \<open>parseRegexp_loop\<close> with the expression built so far. The loop calls \<open>parseRegexp\<close> for
  a parenthesis and for a union, and goes on from the position that call returns.
\<close>

function parseRegexp :: "string \<Rightarrow> nat \<Rightarrow> bool \<Rightarrow> (Regexp \<times> nat) parsed"
  and parseRegexp_loop :: "string \<Rightarrow> nat \<Rightarrow> bool \<Rightarrow> Regexp \<Rightarrow> (Regexp \<times> nat) parsed" where
  "parseRegexp s pos inParen =
     (if pos \<ge> length s then Err UnexpectedEndOfRegexp
      else parseRegexp_loop s pos inParen regexpEmpty)"
| "parseRegexp_loop s pos inParen regexp =
     (if pos < length s then
        (case byteAt s pos of
           None \<Rightarrow> IndexOutOfRange
         | Some b \<Rightarrow>
             if b = CHR ''('' then
               (case parseRegexp s (pos + 1) True of
                  Ok (nextRegexp, newPos) \<Rightarrow>
                    if newPos \<ge> length s then Err ExpectedClosingParen
                    else (case byteAt s newPos of
                            None \<Rightarrow> IndexOutOfRange
                          | Some c \<Rightarrow>
                              if c \<noteq> CHR '')'' then Err ExpectedClosingParen
                              else parseRegexp_loop s (newPos + 1) inParen
                                     (case regexp of
                                        regexpEmpty \<Rightarrow> regexpParenExpr nextRegexp
                                      | _ \<Rightarrow> regexpConcat regexp (regexpParenExpr nextRegexp)))
                | Err e \<Rightarrow> Err e
                | IndexOutOfRange \<Rightarrow> IndexOutOfRange)
             else if b = CHR '')'' then
               (if \<not> inParen then Err UnexpectedClosingParen else Ok (regexp, pos))
             else if b = CHR ''|'' then
               (case parseRegexp s (pos + 1) inParen of
                  Ok (nextRegexp, newPos) \<Rightarrow>
                    if regexp = regexpEmpty then Err ExpectedCharsBeforeUnion
                    else parseRegexp_loop s newPos inParen (regexpUnion regexp nextRegexp)
                | Err e \<Rightarrow> Err e
                | IndexOutOfRange \<Rightarrow> IndexOutOfRange)
             else if b = CHR ''*'' then
               (if regexp = regexpEmpty then Err ExpectedCharsBeforeStar
                else parseRegexp_loop s (pos + 1) inParen
                       (case regexp of
                          regexpConcat left right \<Rightarrow> regexpConcat left (regexpStar right)
                        | _ \<Rightarrow> regexpStar regexp))
             else if b = CHR ''+'' then
               (if regexp = regexpEmpty then Err ExpectedCharsBeforePlus
                else parseRegexp_loop s (pos + 1) inParen
                       (case regexp of
                          regexpConcat left right \<Rightarrow>
                            regexpConcat left (regexpConcat right (regexpStar right))
                        | _ \<Rightarrow> regexpConcat regexp (regexpStar regexp)))
             else if b = CHR ''?'' then
               (if regexp = regexpEmpty then Err ExpectedCharsBeforeQuestionMark
                else parseRegexp_loop s (pos + 1) inParen
                       (case regexp of
                          regexpConcat left right \<Rightarrow>
                            regexpConcat left (regexpUnion regexpEmpty right)
                        | _ \<Rightarrow> regexpUnion regexpEmpty regexp))
             else if b = CHR 0x5C then
               (case parseEscapeSequence s pos of
                  Ok (nextRegexp, newPos) \<Rightarrow>
                    parseRegexp_loop s newPos inParen
                      (case regexp of regexpEmpty \<Rightarrow> nextRegexp
                       | _ \<Rightarrow> regexpConcat regexp nextRegexp)
                | Err e \<Rightarrow> Err e
                | IndexOutOfRange \<Rightarrow> IndexOutOfRange)
             else if b = CHR ''['' then
               (case parseCharacterClass s pos of
                  Ok (nextRegexp, newPos) \<Rightarrow>
                    parseRegexp_loop s newPos inParen
                      (case regexp of regexpEmpty \<Rightarrow> nextRegexp
                       | _ \<Rightarrow> regexpConcat regexp nextRegexp)
                | Err e \<Rightarrow> Err e
                | IndexOutOfRange \<Rightarrow> IndexOutOfRange)
             else if b = CHR ''.'' then
               parseRegexp_loop s (pos + 1) inParen
                 (case regexp of regexpEmpty \<Rightarrow> regexpCharClass True []
                  | _ \<Rightarrow> regexpConcat regexp (regexpCharClass True []))
             else if b = CHR ''^'' then
               parseRegexp_loop s (pos + 1) inParen
                 (case regexp of regexpEmpty \<Rightarrow> regexpStartOfText
                  | _ \<Rightarrow> regexpConcat regexp regexpStartOfText)
             else if b = CHR ''$'' then
               parseRegexp_loop s (pos + 1) inParen
                 (case regexp of regexpEmpty \<Rightarrow> regexpEndOfText
                  | _ \<Rightarrow> regexpConcat regexp regexpEndOfText)
             else
               parseRegexp_loop s (pos + 1) inParen
                 (case regexp of regexpEmpty \<Rightarrow> regexpChar b
                  | _ \<Rightarrow> regexpConcat regexp (regexpChar b)))
      else Ok (regexp, pos))"
  by pat_completeness auto

lemma parseEscapeSequence_advances: "parseEscapeSequence s pos = Ok (r, n) \<Longrightarrow> pos < n"
  by (auto simp: parseEscapeSequence_def split: if_splits option.splits)



text \<open>
  Termination needs that a successful parse returns a position at or after its start;
  this is proved first for the arguments on which the recursion is known to end.
\<close>

lemma parseRegexp_advances_partial:
  "parseRegexp_parseRegexp_loop_dom (Inl (s, pos, inParen)) \<Longrightarrow>
     parseRegexp s pos inParen = Ok (r, n) \<Longrightarrow> pos \<le> n"
  "parseRegexp_parseRegexp_loop_dom (Inr (s, pos, inParen, regexp)) \<Longrightarrow>
     parseRegexp_loop s pos inParen regexp = Ok (r, n) \<Longrightarrow> pos \<le> n"
proof (induct arbitrary: r n and r n rule: parseRegexp_parseRegexp_loop.pinduct)
  case (1 s pos inParen)
  then show ?case
    by (simp add: parseRegexp.psimps split: if_splits)
next
  case (2 s pos inParen regexp)
  note eq = parseRegexp_loop.psimps [OF "2.hyps"(1)]
  show ?case
  proof (cases "pos < length s")
    case False
    with "2.prems" eq show ?thesis by simp
  next
    case True
    then have b: "byteAt s pos = Some (s ! pos)" by (simp add: byteAt_def)
    note ih = "2.hyps"(2-) [OF True b]
    consider (lparen) "s ! pos = CHR ''(''"
      | (rparen) "s ! pos = CHR '')''"
      | (bar) "s ! pos = CHR ''|''"
      | (star) "s ! pos = CHR ''*''"
      | (plus) "s ! pos = CHR ''+''"
      | (question) "s ! pos = CHR ''?''"
      | (backslash) "s ! pos = CHR 0x5C"
      | (lbracket) "s ! pos = CHR ''[''"
      | (dot) "s ! pos = CHR ''.''"
      | (caret) "s ! pos = CHR ''^''"
      | (dollar) "s ! pos = CHR ''$''"
      | (other) "s ! pos \<noteq> CHR ''(''" "s ! pos \<noteq> CHR '')''" "s ! pos \<noteq> CHR ''|''" "s ! pos \<noteq> CHR ''*''" "s ! pos \<noteq> CHR ''+''" "s ! pos \<noteq> CHR ''?''" "s ! pos \<noteq> CHR 0x5C" "s ! pos \<noteq> CHR ''[''" "s ! pos \<noteq> CHR ''.''" "s ! pos \<noteq> CHR ''^''" "s ! pos \<noteq> CHR ''$''"
      by blast
    then show ?thesis
    proof cases
      case lparen
      note ih' = ih [unfolded lparen, simplified]
      from "2.prems" [unfolded eq] True b lparen show ?thesis
        apply simp
        apply (insert ih')
        apply (fastforce split: parsed.splits prod.splits option.splits if_splits
            dest: parseEscapeSequence_advances parseCharacterClass_advances)
        done
    next
      case rparen
      note ih' = ih [unfolded rparen, simplified]
      from "2.prems" [unfolded eq] True b rparen show ?thesis
        apply simp
        apply (insert ih')
        apply (fastforce split: parsed.splits prod.splits option.splits if_splits
            dest: parseEscapeSequence_advances parseCharacterClass_advances)
        done
    next
      case bar
      note ih' = ih [unfolded bar, simplified]
      from "2.prems" [unfolded eq] True b bar show ?thesis
        apply simp
        apply (insert ih')
        apply (fastforce split: parsed.splits prod.splits option.splits if_splits
            dest: parseEscapeSequence_advances parseCharacterClass_advances)
        done
    next
      case star
      note ih' = ih [unfolded star, simplified]
      from "2.prems" [unfolded eq] True b star show ?thesis
        apply simp
        apply (insert ih')
        apply (fastforce split: parsed.splits prod.splits option.splits if_splits
            dest: parseEscapeSequence_advances parseCharacterClass_advances)
        done
    next
      case plus
      note ih' = ih [unfolded plus, simplified]
      from "2.prems" [unfolded eq] True b plus show ?thesis
        apply simp
        apply (insert ih')
        apply (fastforce split: parsed.splits prod.splits option.splits if_splits
            dest: parseEscapeSequence_advances parseCharacterClass_advances)
        done
    next
      case question
      note ih' = ih [unfolded question, simplified]
      from "2.prems" [unfolded eq] True b question show ?thesis
        apply simp
        apply (insert ih')
        apply (fastforce split: parsed.splits prod.splits option.splits if_splits
            dest: parseEscapeSequence_advances parseCharacterClass_advances)
        done
    next
      case backslash
      note ih' = ih [unfolded backslash, simplified]
      from "2.prems" [unfolded eq] True b backslash show ?thesis
        apply simp
        apply (insert ih')
        apply (fastforce split: parsed.splits prod.splits option.splits if_splits
            dest: parseEscapeSequence_advances parseCharacterClass_advances)
        done
    next
      case lbracket
      note ih' = ih [unfolded lbracket, simplified]
      from "2.prems" [unfolded eq] True b lbracket show ?thesis
        apply simp
        apply (insert ih')
        apply (fastforce split: parsed.splits prod.splits option.splits if_splits
            dest: parseEscapeSequence_advances parseCharacterClass_advances)
        done
    next
      case dot
      note ih' = ih [unfolded dot, simplified]
      from "2.prems" [unfolded eq] True b dot show ?thesis
        apply simp
        apply (insert ih')
        apply (fastforce split: parsed.splits prod.splits option.splits if_splits
            dest: parseEscapeSequence_advances parseCharacterClass_advances)
        done
    next
      case caret
      note ih' = ih [unfolded caret, simplified]
      from "2.prems" [unfolded eq] True b caret show ?thesis
        apply simp
        apply (insert ih')
        apply (fastforce split: parsed.splits prod.splits option.splits if_splits
            dest: parseEscapeSequence_advances parseCharacterClass_advances)
        done
    next
      case dollar
      note ih' = ih [unfolded dollar, simplified]
      from "2.prems" [unfolded eq] True b dollar show ?thesis
        apply simp
        apply (insert ih')
        apply (fastforce split: parsed.splits prod.splits option.splits if_splits
            dest: parseEscapeSequence_advances parseCharacterClass_advances)
        done
    next
      case other
      note ih' = ih(13) [OF other]
      from "2.prems" [unfolded eq] True b other show ?thesis
        apply simp
        apply (insert ih')
        apply (fastforce split: parsed.splits prod.splits option.splits if_splits
            dest: parseEscapeSequence_advances parseCharacterClass_advances)
        done
    qed
  qed
qed

termination parseRegexp
proof (relation "measure (\<lambda>x. case x of
          Inl (s, pos, inParen) \<Rightarrow> 2 * (length s - pos) + 1
        | Inr (s, pos, inParen, regexp) \<Rightarrow> 2 * (length s - pos))", goal_cases)
  case 1
  show ?case by simp
next
  case (3 s pos inParen regexp b)
  then show ?case by simp
next
  case (4 s pos inParen regexp b x1 x y c)
  then show ?case
    using parseRegexp_advances_partial(1) [of s "pos + 1" True x y] by simp
next
  case (6 s pos inParen regexp b x1 x y)
  then show ?case
    using parseRegexp_advances_partial(1) [of s "pos + 1" inParen x y] by simp
next
  case (10 s pos inParen regexp b x1 x y)
  then show ?case
    using parseEscapeSequence_advances [of s pos x y] by simp
next
  case (11 s pos inParen regexp b x1 x y)
  then show ?case
    using parseCharacterClass_advances [of s pos x y] by simp
qed simp_all

declare parseRegexp.simps [simp del] parseRegexp_loop.simps [simp del]

definition ParseRegexp :: "string \<Rightarrow> Regexp parsed" where
  "ParseRegexp s =
     (case parseRegexp s 0 False of
        Ok (regexp, pos) \<Rightarrow> Ok regexp
      | Err e \<Rightarrow> Err e
      | IndexOutOfRange \<Rightarrow> IndexOutOfRange)"

subsection \<open>One round of the loop, by the character read\<close>

text \<open>
  Vocabulary for the proofs: the kinds of characters the switch tells apart, and the
  expression each branch builds from the expression so far.
\<close>

definition isMeta :: "char \<Rightarrow> bool" where
  "isMeta c = (c \<in> {CHR ''('', CHR '')'', CHR ''|'', CHR ''*'', CHR ''+'', CHR ''?'', CHR 0x5C, CHR ''[''})"

definition isQuantifier :: "char \<Rightarrow> bool" where
  "isQuantifier c = (c \<in> {CHR ''*'', CHR ''+'', CHR ''?''})"

definition quantifierError :: "char \<Rightarrow> parse_error" where
  "quantifierError c =
     (if c = CHR ''*'' then ExpectedCharsBeforeStar
      else if c = CHR ''+'' then ExpectedCharsBeforePlus
      else ExpectedCharsBeforeQuestionMark)"

definition quantified :: "char \<Rightarrow> Regexp \<Rightarrow> Regexp" where
  "quantified c regexp =
     (if c = CHR ''*'' then
        (case regexp of
           regexpConcat left right \<Rightarrow> regexpConcat left (regexpStar right)
         | _ \<Rightarrow> regexpStar regexp)
      else if c = CHR ''+'' then
        (case regexp of
           regexpConcat left right \<Rightarrow> regexpConcat left (regexpConcat right (regexpStar right))
         | _ \<Rightarrow> regexpConcat regexp (regexpStar regexp))
      else
        (case regexp of
           regexpConcat left right \<Rightarrow> regexpConcat left (regexpUnion regexpEmpty right)
         | _ \<Rightarrow> regexpUnion regexpEmpty regexp))"

definition atomOf :: "char \<Rightarrow> Regexp" where
  "atomOf c =
     (if c = CHR ''.'' then regexpCharClass True []
      else if c = CHR ''^'' then regexpStartOfText
      else if c = CHR ''$'' then regexpEndOfText
      else regexpChar c)"

definition concatOnto :: "Regexp \<Rightarrow> Regexp \<Rightarrow> Regexp" where
  "concatOnto regexp nextRegexp =
     (case regexp of regexpEmpty \<Rightarrow> nextRegexp | _ \<Rightarrow> regexpConcat regexp nextRegexp)"

lemma loop_end: "\<not> pos < length s \<Longrightarrow> parseRegexp_loop s pos inParen regexp = Ok (regexp, pos)"
  by (simp add: parseRegexp_loop.simps)

lemma loop_lparen:
  "pos < length s \<Longrightarrow> s ! pos = CHR ''('' \<Longrightarrow>
   parseRegexp_loop s pos inParen regexp =
     (case parseRegexp s (pos + 1) True of
        Ok (nextRegexp, newPos) \<Rightarrow>
          if newPos < length s \<and> s ! newPos = CHR '')''
          then parseRegexp_loop s (newPos + 1) inParen (concatOnto regexp (regexpParenExpr nextRegexp))
          else Err ExpectedClosingParen
      | Err e \<Rightarrow> Err e
      | IndexOutOfRange \<Rightarrow> IndexOutOfRange)"
  by (simp add: parseRegexp_loop.simps [of s pos] byteAt_def concatOnto_def
      split: parsed.split prod.split)

lemma loop_rparen:
  "pos < length s \<Longrightarrow> s ! pos = CHR '')'' \<Longrightarrow>
   parseRegexp_loop s pos inParen regexp =
     (if inParen then Ok (regexp, pos) else Err UnexpectedClosingParen)"
  by (simp add: parseRegexp_loop.simps [of s pos] byteAt_def)

lemma loop_bar:
  "pos < length s \<Longrightarrow> s ! pos = CHR ''|'' \<Longrightarrow>
   parseRegexp_loop s pos inParen regexp =
     (case parseRegexp s (pos + 1) inParen of
        Ok (nextRegexp, newPos) \<Rightarrow>
          if regexp = regexpEmpty then Err ExpectedCharsBeforeUnion
          else parseRegexp_loop s newPos inParen (regexpUnion regexp nextRegexp)
      | Err e \<Rightarrow> Err e
      | IndexOutOfRange \<Rightarrow> IndexOutOfRange)"
  by (simp add: parseRegexp_loop.simps [of s pos] byteAt_def)

lemma loop_quantifier:
  "pos < length s \<Longrightarrow> isQuantifier (s ! pos) \<Longrightarrow>
   parseRegexp_loop s pos inParen regexp =
     (if regexp = regexpEmpty then Err (quantifierError (s ! pos))
      else parseRegexp_loop s (pos + 1) inParen (quantified (s ! pos) regexp))"
  by (auto simp: parseRegexp_loop.simps [of s pos] byteAt_def isQuantifier_def
      quantifierError_def quantified_def)

lemma loop_backslash:
  "pos < length s \<Longrightarrow> s ! pos = CHR 0x5C \<Longrightarrow>
   parseRegexp_loop s pos inParen regexp =
     (if pos + 1 < length s
      then parseRegexp_loop s (pos + 2) inParen (concatOnto regexp (regexpChar (s ! (pos + 1))))
      else Err InvalidEscapeSequence)"
  by (simp add: parseRegexp_loop.simps [of s pos] byteAt_def parseEscapeSequence_def
      concatOnto_def)

lemma loop_lbracket:
  "pos < length s \<Longrightarrow> s ! pos = CHR ''['' \<Longrightarrow>
   parseRegexp_loop s pos inParen regexp =
     (case parseCharacterClass s pos of
        Ok (nextRegexp, newPos) \<Rightarrow>
          parseRegexp_loop s newPos inParen (concatOnto regexp nextRegexp)
      | Err e \<Rightarrow> Err e
      | IndexOutOfRange \<Rightarrow> IndexOutOfRange)"
  by (simp add: parseRegexp_loop.simps [of s pos] byteAt_def concatOnto_def
      split: parsed.split prod.split)

lemma loop_atom:
  "pos < length s \<Longrightarrow> \<not> isMeta (s ! pos) \<Longrightarrow>
   parseRegexp_loop s pos inParen regexp =
     parseRegexp_loop s (pos + 1) inParen (concatOnto regexp (atomOf (s ! pos)))"
  by (simp add: parseRegexp_loop.simps [of s pos] byteAt_def isMeta_def atomOf_def
      concatOnto_def)

lemma char_kinds:
  obtains (lparen) "c = CHR ''(''" | (rparen) "c = CHR '')''" | (bar) "c = CHR ''|''"
  | (quantifier) "isQuantifier c" | (backslash) "c = CHR 0x5C" | (lbracket) "c = CHR ''[''"
  | (atom) "\<not> isMeta c"
  unfolding isMeta_def isQuantifier_def by blast

lemma parseRegexp_unfold:
  "parseRegexp s pos inParen =
     (if pos < length s then parseRegexp_loop s pos inParen regexpEmpty
      else Err UnexpectedEndOfRegexp)"
  by (simp add: parseRegexp.simps)

lemma parse_advances:
  "(parseRegexp_loop s pos inParen regexp = Ok (r, n) \<longrightarrow> pos \<le> n)
   \<and> (parseRegexp s pos inParen = Ok (r, n) \<longrightarrow> pos \<le> n)"
proof (induction pos arbitrary: inParen regexp r n rule: measure_induct_rule [of "\<lambda>pos. length s - pos"])
  case (less pos)
  have loop: "pos \<le> n" if ok: "parseRegexp_loop s pos inParen regexp = Ok (r, n)"
    for inParen regexp r n
  proof (cases "pos < length s")
    case False
    with ok show ?thesis by (simp add: loop_end)
  next
    case True
    note ih = less.IH
    show ?thesis
    proof (cases "s ! pos" rule: char_kinds)
      case lparen
      from ok obtain nx newPos where sub: "parseRegexp s (pos + 1) True = Ok (nx, newPos)"
        and g: "newPos < length s"
        and rest: "parseRegexp_loop s (newPos + 1) inParen (concatOnto regexp (regexpParenExpr nx))
          = Ok (r, n)"
        unfolding loop_lparen [OF True lparen]
        by (auto split: parsed.splits prod.splits if_splits)
      from ih [of "pos + 1"] True sub have "pos + 1 \<le> newPos" by auto
      moreover from ih [of "newPos + 1"] g this rest have "newPos + 1 \<le> n" by auto
      ultimately show ?thesis by simp
    next
      case rparen
      with ok True show ?thesis by (simp add: loop_rparen split: if_splits)
    next
      case bar
      from ok obtain nx newPos where sub: "parseRegexp s (pos + 1) inParen = Ok (nx, newPos)"
        and rest: "parseRegexp_loop s newPos inParen (regexpUnion regexp nx) = Ok (r, n)"
        unfolding loop_bar [OF True bar]
        by (auto split: parsed.splits prod.splits if_splits)
      from ih [of "pos + 1"] True sub have p: "pos + 1 \<le> newPos" by auto
      show ?thesis
      proof (cases "newPos < length s")
        case True
        with ih [of newPos] p rest have "newPos \<le> n" by auto
        with p show ?thesis by simp
      next
        case False
        with rest p show ?thesis by (simp add: loop_end)
      qed
    next
      case quantifier
      from ok have "parseRegexp_loop s (pos + 1) inParen (quantified (s ! pos) regexp) = Ok (r, n)"
        unfolding loop_quantifier [OF True quantifier] by (simp split: if_splits)
      with ih [of "pos + 1"] True have "pos + 1 \<le> n" by auto
      then show ?thesis by simp
    next
      case backslash
      from ok have "parseRegexp_loop s (pos + 2) inParen
          (concatOnto regexp (regexpChar (s ! (pos + 1)))) = Ok (r, n)"
        unfolding loop_backslash [OF True backslash] by (simp split: if_splits)
      with ih [of "pos + 2"] True have "pos + 2 \<le> n" by auto
      then show ?thesis by simp
    next
      case lbracket
      from ok obtain nx newPos where sub: "parseCharacterClass s pos = Ok (nx, newPos)"
        and rest: "parseRegexp_loop s newPos inParen (concatOnto regexp nx) = Ok (r, n)"
        unfolding loop_lbracket [OF True lbracket]
        by (auto split: parsed.splits prod.splits)
      from parseCharacterClass_advances [OF sub] have p: "pos < newPos" .
      show ?thesis
      proof (cases "newPos < length s")
        case True
        with ih [of newPos] p rest have "newPos \<le> n" by auto
        with p show ?thesis by simp
      next
        case False
        with rest p show ?thesis by (simp add: loop_end)
      qed
    next
      case atom
      from ok have "parseRegexp_loop s (pos + 1) inParen (concatOnto regexp (atomOf (s ! pos)))
          = Ok (r, n)"
        unfolding loop_atom [OF True atom] .
      with ih [of "pos + 1"] True have "pos + 1 \<le> n" by auto
      then show ?thesis by simp
    qed
  qed
  show ?case
    using loop [of inParen regexp r n] loop [of inParen regexpEmpty r n]
    by (auto simp: parseRegexp_unfold)
qed

lemma parseRegexp_advances: "parseRegexp s pos inParen = Ok (r, n) \<Longrightarrow> pos \<le> n"
  using parse_advances by blast

text \<open>
  Induction along the parser's recursion for a fixed pattern: one case per kind of
  character, with the hypothesis for whatever accumulated expression the recursive call
  carries.
\<close>

lemma parse_induct [case_names start finish lparen rparen bar quantifier backslash lbracket atom]:
  assumes start: "\<And>pos inParen. (pos < length s \<Longrightarrow> Q pos inParen regexpEmpty) \<Longrightarrow> P pos inParen"
    and finish: "\<And>pos inParen regexp. \<not> pos < length s \<Longrightarrow> Q pos inParen regexp"
    and lparen: "\<And>pos inParen regexp. pos < length s \<Longrightarrow> s ! pos = CHR ''('' \<Longrightarrow>
        P (pos + 1) True \<Longrightarrow>
        (\<And>nx newPos regexp'. parseRegexp s (pos + 1) True = Ok (nx, newPos) \<Longrightarrow>
            Q (newPos + 1) inParen regexp') \<Longrightarrow>
        Q pos inParen regexp"
    and rparen: "\<And>pos inParen regexp. pos < length s \<Longrightarrow> s ! pos = CHR '')'' \<Longrightarrow>
        Q pos inParen regexp"
    and bar: "\<And>pos inParen regexp. pos < length s \<Longrightarrow> s ! pos = CHR ''|'' \<Longrightarrow>
        P (pos + 1) inParen \<Longrightarrow>
        (\<And>nx newPos regexp'. parseRegexp s (pos + 1) inParen = Ok (nx, newPos) \<Longrightarrow>
            Q newPos inParen regexp') \<Longrightarrow>
        Q pos inParen regexp"
    and quantifier: "\<And>pos inParen regexp. pos < length s \<Longrightarrow> isQuantifier (s ! pos) \<Longrightarrow>
        (\<And>regexp'. Q (pos + 1) inParen regexp') \<Longrightarrow> Q pos inParen regexp"
    and backslash: "\<And>pos inParen regexp. pos < length s \<Longrightarrow> s ! pos = CHR 0x5C \<Longrightarrow>
        (\<And>regexp'. Q (pos + 2) inParen regexp') \<Longrightarrow> Q pos inParen regexp"
    and lbracket: "\<And>pos inParen regexp. pos < length s \<Longrightarrow> s ! pos = CHR ''['' \<Longrightarrow>
        (\<And>nx newPos regexp'. parseCharacterClass s pos = Ok (nx, newPos) \<Longrightarrow>
            Q newPos inParen regexp') \<Longrightarrow>
        Q pos inParen regexp"
    and atom: "\<And>pos inParen regexp. pos < length s \<Longrightarrow> \<not> isMeta (s ! pos) \<Longrightarrow>
        (\<And>regexp'. Q (pos + 1) inParen regexp') \<Longrightarrow> Q pos inParen regexp"
  shows "P pos inParen" and "Q pos inParen regexp"
proof -
  have both: "(\<forall>inParen regexp. Q pos inParen regexp) \<and> (\<forall>inParen. P pos inParen)"
  proof (induction pos rule: measure_induct_rule [of "\<lambda>pos. length s - pos"])
    case (less pos)
    have q: "Q pos inParen regexp" for inParen regexp
    proof (cases "pos < length s")
      case False
      then show ?thesis by (rule finish)
    next
      case True
      have later: "Q pos' b r'" if "pos < pos'" for pos' b r'
        using less.IH [of pos'] that True by simp
      have sub: "P (pos + 1) b" for b
        using less.IH [of "pos + 1"] True by simp
      show ?thesis
      proof (cases "s ! pos" rule: char_kinds)
        case lparen
        show ?thesis
        proof (rule assms(3) [OF True lparen sub])
          fix nx newPos regexp'
          assume "parseRegexp s (pos + 1) True = Ok (nx, newPos)"
          from parseRegexp_advances [OF this] show "Q (newPos + 1) inParen regexp'"
            by (intro later) simp
        qed
      next
        case rparen
        show ?thesis by (rule assms(4) [OF True rparen])
      next
        case bar
        show ?thesis
        proof (rule assms(5) [OF True bar sub])
          fix nx newPos regexp'
          assume "parseRegexp s (pos + 1) inParen = Ok (nx, newPos)"
          from parseRegexp_advances [OF this] show "Q newPos inParen regexp'"
            by (intro later) simp
        qed
      next
        case quantifier
        show ?thesis by (rule assms(6) [OF True quantifier]) (simp add: later)
      next
        case backslash
        show ?thesis by (rule assms(7) [OF True backslash]) (simp add: later)
      next
        case lbracket
        show ?thesis
        proof (rule assms(8) [OF True lbracket])
          fix nx newPos regexp'
          assume "parseCharacterClass s pos = Ok (nx, newPos)"
          from parseCharacterClass_advances [OF this] show "Q newPos inParen regexp'"
            by (rule later)
        qed
      next
        case atom
        show ?thesis by (rule assms(9) [OF True atom]) (simp add: later)
      qed
    qed
    moreover have "P pos inParen" for inParen
      by (rule start) (rule q)
    ultimately show ?case by blast
  qed
  from both show "P pos inParen" and "Q pos inParen regexp" by blast+
qed

subsection \<open>Character classes\<close>

lemma class_loop_no_panic: "parseCharacterClass_loop s pos negated chars \<noteq> IndexOutOfRange"
proof (induction s pos negated chars rule: parseCharacterClass_loop.induct)
  case (1 s pos negated chars)
  then show ?case
    by (simp only: parseCharacterClass_loop.simps [of s pos negated chars])
      (auto simp: byteAt_def)
qed

lemma class_no_panic: "parseCharacterClass s pos \<noteq> IndexOutOfRange"
  by (simp add: parseCharacterClass_def Let_def class_loop_no_panic)

lemma class_loop_bound:
  "parseCharacterClass_loop s pos negated chars = Ok (r, n) \<Longrightarrow> n \<le> length s"
proof (induction s pos negated chars rule: parseCharacterClass_loop.induct)
  case (1 s pos negated chars)
  from "1.prems" "1.IH" show ?case
    by (simp only: parseCharacterClass_loop.simps [of s pos negated chars])
      (fastforce simp: byteAt_def split: if_splits)
qed

lemma class_bound: "parseCharacterClass s pos = Ok (r, n) \<Longrightarrow> n \<le> length s"
  by (auto simp: parseCharacterClass_def Let_def split: if_splits dest: class_loop_bound)

lemma class_loop_append:
  "parseCharacterClass_loop p pos negated chars = Ok (r, n) \<Longrightarrow>
   parseCharacterClass_loop (p @ x) pos negated chars = Ok (r, n)"
proof (induction p pos negated chars rule: parseCharacterClass_loop.induct)
  case (1 p pos negated chars)
  from "1.prems" have lt: "pos < length p"
    by (simp only: parseCharacterClass_loop.simps [of p pos negated chars]) (simp split: if_splits)
  from "1.prems" "1.IH" lt show ?case
    by (simp only: parseCharacterClass_loop.simps [of p pos negated chars]
        parseCharacterClass_loop.simps [of "p @ x" pos negated chars])
      (fastforce simp: byteAt_def nth_append split: if_splits)
qed

lemma class_append:
  "parseCharacterClass p pos = Ok (r, n) \<Longrightarrow> parseCharacterClass (p @ x) pos = Ok (r, n)"
proof -
  assume a: "parseCharacterClass p pos = Ok (r, n)"
  show ?thesis
  proof (cases "pos + 1 < length p")
    case True
    with a show ?thesis
      by (auto simp: parseCharacterClass_def Let_def byteAt_def nth_append split: if_splits
          intro: class_loop_append)
  next
    case False
    with a have "parseCharacterClass_loop p (pos + 1) False [] = Ok (r, n)"
      by (simp add: parseCharacterClass_def Let_def)
    with False show ?thesis
      by (simp add: parseCharacterClass_loop.simps [of p "Suc pos"])
  qed
qed

lemma class_loop_shift:
  "parseCharacterClass_loop q pos negated chars = Ok (r, n) \<Longrightarrow>
   parseCharacterClass_loop (pre @ q) (length pre + pos) negated chars = Ok (r, length pre + n)"
proof (induction q pos negated chars rule: parseCharacterClass_loop.induct)
  case (1 q pos negated chars)
  from "1.prems" have lt: "pos < length q"
    by (simp only: parseCharacterClass_loop.simps [of q pos negated chars]) (simp split: if_splits)
  from "1.prems" "1.IH" lt show ?case
    by (simp only: parseCharacterClass_loop.simps [of q pos negated chars]
        parseCharacterClass_loop.simps [of "pre @ q" "length pre + pos" negated chars])
      (fastforce simp: byteAt_def nth_append add.assoc split: if_splits)
qed

lemma class_shift:
  "parseCharacterClass q pos = Ok (r, n) \<Longrightarrow>
   parseCharacterClass (pre @ q) (length pre + pos) = Ok (r, length pre + n)"
  using class_loop_shift [of q "pos + 2" True "[]" r n pre]
    class_loop_shift [of q "pos + 1" False "[]" r n pre]
  by (auto simp: parseCharacterClass_def Let_def byteAt_def nth_append add.assoc
      split: if_splits)

lemma class_loop_unterminated:
  "\<forall>i. pos \<le> i \<and> i < length s \<longrightarrow> s ! i \<noteq> CHR '']'' \<Longrightarrow>
   \<exists>e. parseCharacterClass_loop s pos negated chars = Err e"
proof (induction s pos negated chars rule: parseCharacterClass_loop.induct)
  case (1 s pos negated chars)
  from "1.prems" have a: "pos < length s \<Longrightarrow> s ! pos \<noteq> CHR '']''"
    and b: "\<forall>i. pos + 1 \<le> i \<and> i < length s \<longrightarrow> s ! i \<noteq> CHR '']''"
    and c: "\<forall>i. pos + 2 \<le> i \<and> i < length s \<longrightarrow> s ! i \<noteq> CHR '']''"
    by auto
  from a "1.IH"(1) [OF _ _ _ _ _ _ _ c] "1.IH"(2) [OF _ _ _ _ b] show ?case
    by (simp only: parseCharacterClass_loop.simps [of s pos negated chars])
      (auto simp: byteAt_def)
qed

lemma class_unterminated:
  assumes "\<forall>i. pos < i \<and> i < length s \<longrightarrow> s ! i \<noteq> CHR '']''"
  shows "\<exists>e. parseCharacterClass s pos = Err e"
proof -
  from assms have "\<forall>i. pos + 1 \<le> i \<and> i < length s \<longrightarrow> s ! i \<noteq> CHR '']''"
    and "\<forall>i. pos + 1 + 1 \<le> i \<and> i < length s \<longrightarrow> s ! i \<noteq> CHR '']''"
    by auto
  then show ?thesis
    using class_loop_unterminated [of "pos + 1" s False "[]"]
      class_loop_unterminated [of "pos + 1 + 1" s True "[]"]
    by (simp add: parseCharacterClass_def Let_def)
qed

subsection \<open>The parser never indexes out of range\<close>

lemma parse_no_panic:
  "parseRegexp s pos inParen \<noteq> IndexOutOfRange"
  "parseRegexp_loop s pos inParen regexp \<noteq> IndexOutOfRange"
proof (induct pos inParen and pos inParen regexp rule: parse_induct [where s = s])
  case (start pos inParen)
  then show ?case by (simp add: parseRegexp_unfold)
next
  case (finish pos inParen regexp)
  then show ?case by (simp add: loop_end)
next
  case (lparen pos inParen regexp)
  then show ?case by (simp add: loop_lparen split: parsed.split prod.split)
next
  case (rparen pos inParen regexp)
  then show ?case by (simp add: loop_rparen)
next
  case (bar pos inParen regexp)
  then show ?case by (simp add: loop_bar split: parsed.split prod.split)
next
  case (quantifier pos inParen regexp)
  then show ?case by (simp add: loop_quantifier)
next
  case (backslash pos inParen regexp)
  then show ?case by (simp add: loop_backslash)
next
  case (lbracket pos inParen regexp)
  then show ?case by (simp add: loop_lbracket class_no_panic split: parsed.split prod.split)
next
  case (atom pos inParen regexp)
  then show ?case by (simp add: loop_atom)
qed

subsection \<open>Outside parentheses the parser stops only at the end\<close>

lemma parse_to_end:
  "inParen = False \<longrightarrow> pos \<le> length s \<longrightarrow>
     (\<forall>r n. parseRegexp s pos inParen = Ok (r, n) \<longrightarrow> n = length s)"
  "inParen = False \<longrightarrow> pos \<le> length s \<longrightarrow>
     (\<forall>r n. parseRegexp_loop s pos inParen regexp = Ok (r, n) \<longrightarrow> n = length s)"
proof (induct pos inParen and pos inParen regexp rule: parse_induct [where s = s])
  case (start pos inParen)
  show ?case
  proof (intro impI allI)
    fix r n
    assume f: "inParen = False" and le: "pos \<le> length s"
      and ok: "parseRegexp s pos inParen = Ok (r, n)"
    from ok have lt: "pos < length s" and "parseRegexp_loop s pos inParen regexpEmpty = Ok (r, n)"
      by (simp_all add: parseRegexp_unfold split: if_splits)
    with start [OF lt] f le show "n = length s" by blast
  qed
next
  case (finish pos inParen regexp)
  then show ?case by (auto simp: loop_end)
next
  case (lparen pos inParen regexp)
  show ?case
  proof (intro impI allI)
    fix r n
    assume f: "inParen = False" and "pos \<le> length s"
      and ok: "parseRegexp_loop s pos inParen regexp = Ok (r, n)"
    from ok obtain nx newPos where sub: "parseRegexp s (pos + 1) True = Ok (nx, newPos)"
      and g: "newPos < length s"
      and rest: "parseRegexp_loop s (newPos + 1) inParen (concatOnto regexp (regexpParenExpr nx))
        = Ok (r, n)"
      unfolding loop_lparen [OF lparen(1,2)]
      by (auto split: parsed.splits prod.splits if_splits)
    from g have "newPos + 1 \<le> length s" by simp
    with lparen(4) [OF sub, of "concatOnto regexp (regexpParenExpr nx)"] f rest
    show "n = length s" by blast
  qed
next
  case (rparen pos inParen regexp)
  show ?case
    unfolding loop_rparen [OF rparen] by simp
next
  case (bar pos inParen regexp)
  show ?case
  proof (intro impI allI)
    fix r n
    assume f: "inParen = False" and "pos \<le> length s"
      and ok: "parseRegexp_loop s pos inParen regexp = Ok (r, n)"
    from ok obtain nx newPos where sub: "parseRegexp s (pos + 1) inParen = Ok (nx, newPos)"
      and rest: "parseRegexp_loop s newPos inParen (regexpUnion regexp nx) = Ok (r, n)"
      unfolding loop_bar [OF bar(1,2)]
      by (auto split: parsed.splits prod.splits if_splits)
    from bar(1) have "pos + 1 \<le> length s" by simp
    with bar(3) f sub have "newPos = length s" by blast
    then have "newPos \<le> length s" by simp
    with bar(4) [OF sub, of "regexpUnion regexp nx"] f rest show "n = length s" by blast
  qed
next
  case (quantifier pos inParen regexp)
  show ?case
  proof (intro impI allI)
    fix r n
    assume f: "inParen = False" and "pos \<le> length s"
      and ok: "parseRegexp_loop s pos inParen regexp = Ok (r, n)"
    from ok have rest: "parseRegexp_loop s (pos + 1) inParen (quantified (s ! pos) regexp) = Ok (r, n)"
      unfolding loop_quantifier [OF quantifier(1,2)] by (simp split: if_splits)
    from quantifier(1) have "pos + 1 \<le> length s" by simp
    with quantifier(3) [of "quantified (s ! pos) regexp"] f rest show "n = length s" by blast
  qed
next
  case (backslash pos inParen regexp)
  show ?case
  proof (intro impI allI)
    fix r n
    assume f: "inParen = False" and "pos \<le> length s"
      and ok: "parseRegexp_loop s pos inParen regexp = Ok (r, n)"
    from ok have g: "pos + 1 < length s" and rest: "parseRegexp_loop s (pos + 2) inParen
        (concatOnto regexp (regexpChar (s ! (pos + 1)))) = Ok (r, n)"
      unfolding loop_backslash [OF backslash(1,2)] by (simp_all split: if_splits)
    from g have "pos + 2 \<le> length s" by simp
    with backslash(3) [of "concatOnto regexp (regexpChar (s ! (pos + 1)))"] f rest
    show "n = length s" by blast
  qed
next
  case (lbracket pos inParen regexp)
  show ?case
  proof (intro impI allI)
    fix r n
    assume f: "inParen = False" and "pos \<le> length s"
      and ok: "parseRegexp_loop s pos inParen regexp = Ok (r, n)"
    from ok obtain nx newPos where sub: "parseCharacterClass s pos = Ok (nx, newPos)"
      and rest: "parseRegexp_loop s newPos inParen (concatOnto regexp nx) = Ok (r, n)"
      unfolding loop_lbracket [OF lbracket(1,2)]
      by (auto split: parsed.splits prod.splits)
    from lbracket(3) [OF sub, of "concatOnto regexp nx"] class_bound [OF sub] f rest
    show "n = length s" by blast
  qed
next
  case (atom pos inParen regexp)
  show ?case
  proof (intro impI allI)
    fix r n
    assume f: "inParen = False" and "pos \<le> length s"
      and ok: "parseRegexp_loop s pos inParen regexp = Ok (r, n)"
    from ok have rest: "parseRegexp_loop s (pos + 1) inParen (concatOnto regexp (atomOf (s ! pos)))
        = Ok (r, n)"
      unfolding loop_atom [OF atom(1,2)] .
    from atom(1) have "pos + 1 \<le> length s" by simp
    with atom(3) [of "concatOnto regexp (atomOf (s ! pos))"] f rest show "n = length s" by blast
  qed
qed

subsection \<open>A parse that stops inside the pattern does not see what follows\<close>

lemma parse_append:
  "\<forall>r n. parseRegexp p pos inParen = Ok (r, n) \<longrightarrow> n < length p \<longrightarrow>
     parseRegexp (p @ x) pos inParen = Ok (r, n)"
  "\<forall>r n. parseRegexp_loop p pos inParen regexp = Ok (r, n) \<longrightarrow> n < length p \<longrightarrow>
     parseRegexp_loop (p @ x) pos inParen regexp = Ok (r, n)"
proof (induct pos inParen and pos inParen regexp rule: parse_induct [where s = p])
  case (start pos inParen)
  then show ?case by (simp add: parseRegexp_unfold)
next
  case (finish pos inParen regexp)
  then show ?case by (auto simp: loop_end)
next
  case (lparen pos inParen regexp)
  have px: "pos < length (p @ x)" "(p @ x) ! pos = CHR ''(''"
    using lparen(1,2) by (simp_all add: nth_append)
  show ?case
  proof (intro impI allI)
    fix r n
    assume ok: "parseRegexp_loop p pos inParen regexp = Ok (r, n)" and n: "n < length p"
    from ok obtain nx newPos where sub: "parseRegexp p (pos + 1) True = Ok (nx, newPos)"
      and g: "newPos < length p" "p ! newPos = CHR '')''"
      and rest: "parseRegexp_loop p (newPos + 1) inParen (concatOnto regexp (regexpParenExpr nx))
        = Ok (r, n)"
      unfolding loop_lparen [OF lparen(1,2)]
      by (auto split: parsed.splits prod.splits if_splits)
    from lparen(3) sub g(1) have "parseRegexp (p @ x) (pos + 1) True = Ok (nx, newPos)" by simp
    moreover from lparen(4) [OF sub] rest n
    have "parseRegexp_loop (p @ x) (newPos + 1) inParen (concatOnto regexp (regexpParenExpr nx))
        = Ok (r, n)" by simp
    ultimately show "parseRegexp_loop (p @ x) pos inParen regexp = Ok (r, n)"
      unfolding loop_lparen [OF px] using g by (simp add: nth_append)
  qed
next
  case (rparen pos inParen regexp)
  have px: "pos < length (p @ x)" "(p @ x) ! pos = CHR '')''"
    using rparen(1,2) by (simp_all add: nth_append)
  show ?case
    unfolding loop_rparen [OF px] loop_rparen [OF rparen(1,2)] by simp
next
  case (bar pos inParen regexp)
  have px: "pos < length (p @ x)" "(p @ x) ! pos = CHR ''|''"
    using bar(1,2) by (simp_all add: nth_append)
  show ?case
  proof (intro impI allI)
    fix r n
    assume ok: "parseRegexp_loop p pos inParen regexp = Ok (r, n)" and n: "n < length p"
    from ok obtain nx newPos where sub: "parseRegexp p (pos + 1) inParen = Ok (nx, newPos)"
      and ne: "regexp \<noteq> regexpEmpty"
      and rest: "parseRegexp_loop p newPos inParen (regexpUnion regexp nx) = Ok (r, n)"
      unfolding loop_bar [OF bar(1,2)]
      by (auto split: parsed.splits prod.splits if_splits)
    from parse_advances rest have "newPos \<le> n" by blast
    with n bar(3) sub have "parseRegexp (p @ x) (pos + 1) inParen = Ok (nx, newPos)" by simp
    moreover from bar(4) [OF sub] rest n
    have "parseRegexp_loop (p @ x) newPos inParen (regexpUnion regexp nx) = Ok (r, n)" by simp
    ultimately show "parseRegexp_loop (p @ x) pos inParen regexp = Ok (r, n)"
      unfolding loop_bar [OF px] using ne by simp
  qed
next
  case (quantifier pos inParen regexp)
  have px: "pos < length (p @ x)" "isQuantifier ((p @ x) ! pos)"
    using quantifier(1,2) by (simp_all add: nth_append)
  from quantifier(3) show ?case
    unfolding loop_quantifier [OF px] loop_quantifier [OF quantifier(1,2)]
    using quantifier(1) by (simp add: nth_append)
next
  case (backslash pos inParen regexp)
  have px: "pos < length (p @ x)" "(p @ x) ! pos = CHR 0x5C"
    using backslash(1,2) by (simp_all add: nth_append)
  from backslash(3) show ?case
    unfolding loop_backslash [OF px] loop_backslash [OF backslash(1,2)]
    by (simp add: nth_append)
next
  case (lbracket pos inParen regexp)
  have px: "pos < length (p @ x)" "(p @ x) ! pos = CHR ''[''"
    using lbracket(1,2) by (simp_all add: nth_append)
  show ?case
  proof (intro impI allI)
    fix r n
    assume ok: "parseRegexp_loop p pos inParen regexp = Ok (r, n)" and n: "n < length p"
    from ok obtain nx newPos where sub: "parseCharacterClass p pos = Ok (nx, newPos)"
      and rest: "parseRegexp_loop p newPos inParen (concatOnto regexp nx) = Ok (r, n)"
      unfolding loop_lbracket [OF lbracket(1,2)]
      by (auto split: parsed.splits prod.splits)
    from lbracket(3) [OF sub] rest n
    have "parseRegexp_loop (p @ x) newPos inParen (concatOnto regexp nx) = Ok (r, n)" by simp
    then show "parseRegexp_loop (p @ x) pos inParen regexp = Ok (r, n)"
      unfolding loop_lbracket [OF px] by (simp add: class_append [OF sub])
  qed
next
  case (atom pos inParen regexp)
  have px: "pos < length (p @ x)" "\<not> isMeta ((p @ x) ! pos)"
    using atom(1,2) by (simp_all add: nth_append)
  from atom(3) show ?case
    unfolding loop_atom [OF px] loop_atom [OF atom(1,2)]
    using atom(1) by (simp add: nth_append)
qed

subsection \<open>An error after a well-formed prefix reaches the caller\<close>

lemma parse_error_after:
  assumes hyp: "\<And>regexp. parseRegexp_loop (p @ x) (length p) False regexp = Err e"
  shows "inParen = False \<longrightarrow> pos \<le> length p \<longrightarrow>
     (\<forall>r n. parseRegexp p pos inParen = Ok (r, n) \<longrightarrow> parseRegexp (p @ x) pos inParen = Err e)"
    and "inParen = False \<longrightarrow> pos \<le> length p \<longrightarrow>
     (\<forall>r n. parseRegexp_loop p pos inParen regexp = Ok (r, n) \<longrightarrow>
        parseRegexp_loop (p @ x) pos inParen regexp = Err e)"
proof (induct pos inParen and pos inParen regexp rule: parse_induct [where s = p])
  case (start pos inParen)
  show ?case
  proof (intro impI allI)
    fix r n
    assume f: "inParen = False" and le: "pos \<le> length p"
      and ok: "parseRegexp p pos inParen = Ok (r, n)"
    from ok have lt: "pos < length p" and "parseRegexp_loop p pos inParen regexpEmpty = Ok (r, n)"
      by (simp_all add: parseRegexp_unfold split: if_splits)
    with start [OF lt] f le have "parseRegexp_loop (p @ x) pos inParen regexpEmpty = Err e"
      by blast
    with lt show "parseRegexp (p @ x) pos inParen = Err e"
      by (simp add: parseRegexp_unfold)
  qed
next
  case (finish pos inParen regexp)
  show ?case
  proof (intro impI allI)
    fix r n
    assume f: "inParen = False" and le: "pos \<le> length p"
    with finish have "pos = length p" by simp
    with hyp [of regexp] f show "parseRegexp_loop (p @ x) pos inParen regexp = Err e" by simp
  qed
next
  case (lparen pos inParen regexp)
  have px: "pos < length (p @ x)" "(p @ x) ! pos = CHR ''(''"
    using lparen(1,2) by (simp_all add: nth_append)
  show ?case
  proof (intro impI allI)
    fix r n
    assume f: "inParen = False" and le: "pos \<le> length p"
      and ok: "parseRegexp_loop p pos inParen regexp = Ok (r, n)"
    from ok obtain nx newPos where sub: "parseRegexp p (pos + 1) True = Ok (nx, newPos)"
      and g: "newPos < length p" "p ! newPos = CHR '')''"
      and rest: "parseRegexp_loop p (newPos + 1) inParen (concatOnto regexp (regexpParenExpr nx))
        = Ok (r, n)"
      unfolding loop_lparen [OF lparen(1,2)]
      by (auto split: parsed.splits prod.splits if_splits)
    from parse_append(1) [of p "pos + 1" True x] sub g(1)
    have subx: "parseRegexp (p @ x) (pos + 1) True = Ok (nx, newPos)" by blast
    from g(1) have "newPos + 1 \<le> length p" by simp
    with lparen(4) [OF sub, of "concatOnto regexp (regexpParenExpr nx)"] f rest
    have "parseRegexp_loop (p @ x) (newPos + 1) inParen (concatOnto regexp (regexpParenExpr nx))
        = Err e" by blast
    with subx g show "parseRegexp_loop (p @ x) pos inParen regexp = Err e"
      unfolding loop_lparen [OF px] by (simp add: nth_append)
  qed
next
  case (rparen pos inParen regexp)
  show ?case
    unfolding loop_rparen [OF rparen] by simp
next
  case (bar pos inParen regexp)
  have px: "pos < length (p @ x)" "(p @ x) ! pos = CHR ''|''"
    using bar(1,2) by (simp_all add: nth_append)
  show ?case
  proof (intro impI allI)
    fix r n
    assume f: "inParen = False" and le: "pos \<le> length p"
      and ok: "parseRegexp_loop p pos inParen regexp = Ok (r, n)"
    from ok obtain nx newPos where sub: "parseRegexp p (pos + 1) inParen = Ok (nx, newPos)"
      unfolding loop_bar [OF bar(1,2)]
      by (auto split: parsed.splits prod.splits if_splits)
    from bar(1) have "pos + 1 \<le> length p" by simp
    with bar(3) f sub have "parseRegexp (p @ x) (pos + 1) inParen = Err e" by blast
    then show "parseRegexp_loop (p @ x) pos inParen regexp = Err e"
      unfolding loop_bar [OF px] by simp
  qed
next
  case (quantifier pos inParen regexp)
  have px: "pos < length (p @ x)" "isQuantifier ((p @ x) ! pos)"
    using quantifier(1,2) by (simp_all add: nth_append)
  show ?case
  proof (intro impI allI)
    fix r n
    assume f: "inParen = False" and le: "pos \<le> length p"
      and ok: "parseRegexp_loop p pos inParen regexp = Ok (r, n)"
    from ok have ne: "regexp \<noteq> regexpEmpty"
      and rest: "parseRegexp_loop p (pos + 1) inParen (quantified (p ! pos) regexp) = Ok (r, n)"
      unfolding loop_quantifier [OF quantifier(1,2)] by (simp_all split: if_splits)
    from quantifier(1) have "pos + 1 \<le> length p" by simp
    with quantifier(3) [of "quantified (p ! pos) regexp"] f rest
    have "parseRegexp_loop (p @ x) (pos + 1) inParen (quantified (p ! pos) regexp) = Err e"
      by blast
    with ne quantifier(1) show "parseRegexp_loop (p @ x) pos inParen regexp = Err e"
      unfolding loop_quantifier [OF px] by (simp add: nth_append)
  qed
next
  case (backslash pos inParen regexp)
  have px: "pos < length (p @ x)" "(p @ x) ! pos = CHR 0x5C"
    using backslash(1,2) by (simp_all add: nth_append)
  show ?case
  proof (intro impI allI)
    fix r n
    assume f: "inParen = False" and le: "pos \<le> length p"
      and ok: "parseRegexp_loop p pos inParen regexp = Ok (r, n)"
    from ok have g: "pos + 1 < length p" and rest: "parseRegexp_loop p (pos + 2) inParen
        (concatOnto regexp (regexpChar (p ! (pos + 1)))) = Ok (r, n)"
      unfolding loop_backslash [OF backslash(1,2)] by (simp_all split: if_splits)
    from g have "pos + 2 \<le> length p" by simp
    with backslash(3) [of "concatOnto regexp (regexpChar (p ! (pos + 1)))"] f rest
    have "parseRegexp_loop (p @ x) (pos + 2) inParen
        (concatOnto regexp (regexpChar (p ! (pos + 1)))) = Err e" by blast
    with g show "parseRegexp_loop (p @ x) pos inParen regexp = Err e"
      unfolding loop_backslash [OF px] by (simp add: nth_append)
  qed
next
  case (lbracket pos inParen regexp)
  have px: "pos < length (p @ x)" "(p @ x) ! pos = CHR ''[''"
    using lbracket(1,2) by (simp_all add: nth_append)
  show ?case
  proof (intro impI allI)
    fix r n
    assume f: "inParen = False" and le: "pos \<le> length p"
      and ok: "parseRegexp_loop p pos inParen regexp = Ok (r, n)"
    from ok obtain nx newPos where sub: "parseCharacterClass p pos = Ok (nx, newPos)"
      and rest: "parseRegexp_loop p newPos inParen (concatOnto regexp nx) = Ok (r, n)"
      unfolding loop_lbracket [OF lbracket(1,2)]
      by (auto split: parsed.splits prod.splits)
    from lbracket(3) [OF sub, of "concatOnto regexp nx"] class_bound [OF sub] f rest
    have "parseRegexp_loop (p @ x) newPos inParen (concatOnto regexp nx) = Err e" by blast
    then show "parseRegexp_loop (p @ x) pos inParen regexp = Err e"
      unfolding loop_lbracket [OF px] by (simp add: class_append [OF sub])
  qed
next
  case (atom pos inParen regexp)
  have px: "pos < length (p @ x)" "\<not> isMeta ((p @ x) ! pos)"
    using atom(1,2) by (simp_all add: nth_append)
  show ?case
  proof (intro impI allI)
    fix r n
    assume f: "inParen = False" and le: "pos \<le> length p"
      and ok: "parseRegexp_loop p pos inParen regexp = Ok (r, n)"
    from ok have rest: "parseRegexp_loop p (pos + 1) inParen (concatOnto regexp (atomOf (p ! pos)))
        = Ok (r, n)"
      unfolding loop_atom [OF atom(1,2)] .
    from atom(1) have "pos + 1 \<le> length p" by simp
    with atom(3) [of "concatOnto regexp (atomOf (p ! pos))"] f rest
    have "parseRegexp_loop (p @ x) (pos + 1) inParen (concatOnto regexp (atomOf (p ! pos))) = Err e"
      by blast
    with atom(1) show "parseRegexp_loop (p @ x) pos inParen regexp = Err e"
      unfolding loop_atom [OF px] by (simp add: nth_append)
  qed
qed

definition wellFormedOrEmpty :: "string \<Rightarrow> bool" where
  "wellFormedOrEmpty p = (p = [] \<or> (\<exists>r. ParseRegexp p = Ok r))"

lemma ParseRegexp_error_after:
  assumes p: "wellFormedOrEmpty p"
    and hyp: "\<And>regexp. parseRegexp_loop (p @ x) (length p) False regexp = Err e"
  shows "ParseRegexp (p @ x) = Err e"
proof (cases "p = []")
  case True
  from hyp [of regexpEmpty] True have l: "parseRegexp_loop x 0 False regexpEmpty = Err e" by simp
  then have "x \<noteq> []" by (auto simp: loop_end)
  with l True show ?thesis by (simp add: ParseRegexp_def parseRegexp_unfold)
next
  case False
  with p obtain r n where "parseRegexp p 0 False = Ok (r, n)"
    by (auto simp: wellFormedOrEmpty_def ParseRegexp_def split: parsed.splits)
  with parse_error_after(1) [of p x e False 0, OF hyp] show ?thesis
    by (simp add: ParseRegexp_def)
qed

subsection \<open>What parses outside parentheses parses inside them\<close>

lemma parse_in_paren:
  "inParen = False \<longrightarrow>
     (\<forall>r n. parseRegexp s pos inParen = Ok (r, n) \<longrightarrow> parseRegexp s pos True = Ok (r, n))"
  "inParen = False \<longrightarrow>
     (\<forall>r n. parseRegexp_loop s pos inParen regexp = Ok (r, n) \<longrightarrow>
        parseRegexp_loop s pos True regexp = Ok (r, n))"
proof (induct pos inParen and pos inParen regexp rule: parse_induct [where s = s])
  case (start pos inParen)
  show ?case
  proof (intro impI allI)
    fix r n
    assume f: "inParen = False" and ok: "parseRegexp s pos inParen = Ok (r, n)"
    from ok have lt: "pos < length s" and "parseRegexp_loop s pos inParen regexpEmpty = Ok (r, n)"
      by (simp_all add: parseRegexp_unfold split: if_splits)
    with start [OF lt] f have "parseRegexp_loop s pos True regexpEmpty = Ok (r, n)" by blast
    with lt show "parseRegexp s pos True = Ok (r, n)" by (simp add: parseRegexp_unfold)
  qed
next
  case (finish pos inParen regexp)
  then show ?case by (simp add: loop_end)
next
  case (lparen pos inParen regexp)
  show ?case
  proof (intro impI allI)
    fix r n
    assume f: "inParen = False" and ok: "parseRegexp_loop s pos inParen regexp = Ok (r, n)"
    from ok obtain nx newPos where sub: "parseRegexp s (pos + 1) True = Ok (nx, newPos)"
      and g: "newPos < length s" "s ! newPos = CHR '')''"
      and rest: "parseRegexp_loop s (newPos + 1) inParen (concatOnto regexp (regexpParenExpr nx))
        = Ok (r, n)"
      unfolding loop_lparen [OF lparen(1,2)]
      by (auto split: parsed.splits prod.splits if_splits)
    from lparen(4) [OF sub, of "concatOnto regexp (regexpParenExpr nx)"] f rest
    have "parseRegexp_loop s (newPos + 1) True (concatOnto regexp (regexpParenExpr nx)) = Ok (r, n)"
      by blast
    with sub g show "parseRegexp_loop s pos True regexp = Ok (r, n)"
      unfolding loop_lparen [OF lparen(1,2)] by simp
  qed
next
  case (rparen pos inParen regexp)
  show ?case
    unfolding loop_rparen [OF rparen] by simp
next
  case (bar pos inParen regexp)
  show ?case
  proof (intro impI allI)
    fix r n
    assume f: "inParen = False" and ok: "parseRegexp_loop s pos inParen regexp = Ok (r, n)"
    from ok obtain nx newPos where sub: "parseRegexp s (pos + 1) inParen = Ok (nx, newPos)"
      and ne: "regexp \<noteq> regexpEmpty"
      and rest: "parseRegexp_loop s newPos inParen (regexpUnion regexp nx) = Ok (r, n)"
      unfolding loop_bar [OF bar(1,2)]
      by (auto split: parsed.splits prod.splits if_splits)
    from bar(3) f sub have "parseRegexp s (pos + 1) True = Ok (nx, newPos)" by blast
    moreover from bar(4) [OF sub, of "regexpUnion regexp nx"] f rest
    have "parseRegexp_loop s newPos True (regexpUnion regexp nx) = Ok (r, n)" by blast
    ultimately show "parseRegexp_loop s pos True regexp = Ok (r, n)"
      unfolding loop_bar [OF bar(1,2)] using ne by simp
  qed
next
  case (quantifier pos inParen regexp)
  show ?case
  proof (intro impI allI)
    fix r n
    assume f: "inParen = False" and ok: "parseRegexp_loop s pos inParen regexp = Ok (r, n)"
    from ok have ne: "regexp \<noteq> regexpEmpty"
      and rest: "parseRegexp_loop s (pos + 1) inParen (quantified (s ! pos) regexp) = Ok (r, n)"
      unfolding loop_quantifier [OF quantifier(1,2)] by (simp_all split: if_splits)
    from quantifier(3) [of "quantified (s ! pos) regexp"] f rest
    have "parseRegexp_loop s (pos + 1) True (quantified (s ! pos) regexp) = Ok (r, n)" by blast
    with ne show "parseRegexp_loop s pos True regexp = Ok (r, n)"
      unfolding loop_quantifier [OF quantifier(1,2)] by simp
  qed
next
  case (backslash pos inParen regexp)
  show ?case
  proof (intro impI allI)
    fix r n
    assume f: "inParen = False" and ok: "parseRegexp_loop s pos inParen regexp = Ok (r, n)"
    from ok have g: "pos + 1 < length s" and rest: "parseRegexp_loop s (pos + 2) inParen
        (concatOnto regexp (regexpChar (s ! (pos + 1)))) = Ok (r, n)"
      unfolding loop_backslash [OF backslash(1,2)] by (simp_all split: if_splits)
    from backslash(3) [of "concatOnto regexp (regexpChar (s ! (pos + 1)))"] f rest
    have "parseRegexp_loop s (pos + 2) True
        (concatOnto regexp (regexpChar (s ! (pos + 1)))) = Ok (r, n)" by blast
    with g show "parseRegexp_loop s pos True regexp = Ok (r, n)"
      unfolding loop_backslash [OF backslash(1,2)] by simp
  qed
next
  case (lbracket pos inParen regexp)
  show ?case
  proof (intro impI allI)
    fix r n
    assume f: "inParen = False" and ok: "parseRegexp_loop s pos inParen regexp = Ok (r, n)"
    from ok obtain nx newPos where sub: "parseCharacterClass s pos = Ok (nx, newPos)"
      and rest: "parseRegexp_loop s newPos inParen (concatOnto regexp nx) = Ok (r, n)"
      unfolding loop_lbracket [OF lbracket(1,2)]
      by (auto split: parsed.splits prod.splits)
    from lbracket(3) [OF sub, of "concatOnto regexp nx"] f rest
    have "parseRegexp_loop s newPos True (concatOnto regexp nx) = Ok (r, n)" by blast
    with sub show "parseRegexp_loop s pos True regexp = Ok (r, n)"
      unfolding loop_lbracket [OF lbracket(1,2)] by simp
  qed
next
  case (atom pos inParen regexp)
  show ?case
  proof (intro impI allI)
    fix r n
    assume f: "inParen = False" and ok: "parseRegexp_loop s pos inParen regexp = Ok (r, n)"
    from ok have rest: "parseRegexp_loop s (pos + 1) inParen (concatOnto regexp (atomOf (s ! pos)))
        = Ok (r, n)"
      unfolding loop_atom [OF atom(1,2)] .
    from atom(3) [of "concatOnto regexp (atomOf (s ! pos))"] f rest
    show "parseRegexp_loop s pos True regexp = Ok (r, n)"
      unfolding loop_atom [OF atom(1,2)] by blast
  qed
qed

subsection \<open>A parse does not depend on what precedes its start\<close>

lemma parse_shift:
  "\<forall>r n. parseRegexp q pos inParen = Ok (r, n) \<longrightarrow>
     parseRegexp (pre @ q) (length pre + pos) inParen = Ok (r, length pre + n)"
  "\<forall>r n. parseRegexp_loop q pos inParen regexp = Ok (r, n) \<longrightarrow>
     parseRegexp_loop (pre @ q) (length pre + pos) inParen regexp = Ok (r, length pre + n)"
proof (induct pos inParen and pos inParen regexp rule: parse_induct [where s = q])
  case (start pos inParen)
  show ?case
  proof (intro impI allI)
    fix r n
    assume ok: "parseRegexp q pos inParen = Ok (r, n)"
    from ok have lt: "pos < length q" and "parseRegexp_loop q pos inParen regexpEmpty = Ok (r, n)"
      by (simp_all add: parseRegexp_unfold split: if_splits)
    with start [OF lt]
    have "parseRegexp_loop (pre @ q) (length pre + pos) inParen regexpEmpty
        = Ok (r, length pre + n)" by blast
    with lt show "parseRegexp (pre @ q) (length pre + pos) inParen = Ok (r, length pre + n)"
      by (simp add: parseRegexp_unfold)
  qed
next
  case (finish pos inParen regexp)
  then show ?case by (simp add: loop_end)
next
  case (lparen pos inParen regexp)
  have px: "length pre + pos < length (pre @ q)" "(pre @ q) ! (length pre + pos) = CHR ''(''"
    using lparen(1,2) by simp_all
  show ?case
  proof (intro impI allI)
    fix r n
    assume ok: "parseRegexp_loop q pos inParen regexp = Ok (r, n)"
    from ok obtain nx newPos where sub: "parseRegexp q (pos + 1) True = Ok (nx, newPos)"
      and g: "newPos < length q" "q ! newPos = CHR '')''"
      and rest: "parseRegexp_loop q (newPos + 1) inParen (concatOnto regexp (regexpParenExpr nx))
        = Ok (r, n)"
      unfolding loop_lparen [OF lparen(1,2)]
      by (auto split: parsed.splits prod.splits if_splits)
    from lparen(3) sub
    have "parseRegexp (pre @ q) (length pre + (pos + 1)) True = Ok (nx, length pre + newPos)"
      by blast
    then have subx: "parseRegexp (pre @ q) (length pre + pos + 1) True
        = Ok (nx, length pre + newPos)" by (simp add: add.assoc)
    from lparen(4) [OF sub, of "concatOnto regexp (regexpParenExpr nx)"] rest
    have "parseRegexp_loop (pre @ q) (length pre + (newPos + 1)) inParen
        (concatOnto regexp (regexpParenExpr nx)) = Ok (r, length pre + n)" by blast
    then have restx: "parseRegexp_loop (pre @ q) (length pre + newPos + 1) inParen
        (concatOnto regexp (regexpParenExpr nx)) = Ok (r, length pre + n)"
      by (simp add: add.assoc)
    from subx restx g
    show "parseRegexp_loop (pre @ q) (length pre + pos) inParen regexp = Ok (r, length pre + n)"
      unfolding loop_lparen [OF px] by simp
  qed
next
  case (rparen pos inParen regexp)
  have px: "length pre + pos < length (pre @ q)" "(pre @ q) ! (length pre + pos) = CHR '')''"
    using rparen(1,2) by simp_all
  show ?case
    unfolding loop_rparen [OF px] loop_rparen [OF rparen] by simp
next
  case (bar pos inParen regexp)
  have px: "length pre + pos < length (pre @ q)" "(pre @ q) ! (length pre + pos) = CHR ''|''"
    using bar(1,2) by simp_all
  show ?case
  proof (intro impI allI)
    fix r n
    assume ok: "parseRegexp_loop q pos inParen regexp = Ok (r, n)"
    from ok obtain nx newPos where sub: "parseRegexp q (pos + 1) inParen = Ok (nx, newPos)"
      and ne: "regexp \<noteq> regexpEmpty"
      and rest: "parseRegexp_loop q newPos inParen (regexpUnion regexp nx) = Ok (r, n)"
      unfolding loop_bar [OF bar(1,2)]
      by (auto split: parsed.splits prod.splits if_splits)
    from bar(3) sub
    have "parseRegexp (pre @ q) (length pre + (pos + 1)) inParen = Ok (nx, length pre + newPos)"
      by blast
    then have subx: "parseRegexp (pre @ q) (length pre + pos + 1) inParen
        = Ok (nx, length pre + newPos)" by (simp add: add.assoc)
    from bar(4) [OF sub, of "regexpUnion regexp nx"] rest
    have restx: "parseRegexp_loop (pre @ q) (length pre + newPos) inParen
        (regexpUnion regexp nx) = Ok (r, length pre + n)" by blast
    from subx restx ne
    show "parseRegexp_loop (pre @ q) (length pre + pos) inParen regexp = Ok (r, length pre + n)"
      unfolding loop_bar [OF px] by simp
  qed
next
  case (quantifier pos inParen regexp)
  have px: "length pre + pos < length (pre @ q)" "isQuantifier ((pre @ q) ! (length pre + pos))"
    using quantifier(1,2) by simp_all
  show ?case
  proof (intro impI allI)
    fix r n
    assume ok: "parseRegexp_loop q pos inParen regexp = Ok (r, n)"
    from ok have ne: "regexp \<noteq> regexpEmpty"
      and rest: "parseRegexp_loop q (pos + 1) inParen (quantified (q ! pos) regexp) = Ok (r, n)"
      unfolding loop_quantifier [OF quantifier(1,2)] by (simp_all split: if_splits)
    from quantifier(3) [of "quantified (q ! pos) regexp"] rest
    have "parseRegexp_loop (pre @ q) (length pre + (pos + 1)) inParen
        (quantified (q ! pos) regexp) = Ok (r, length pre + n)" by blast
    then have "parseRegexp_loop (pre @ q) (length pre + pos + 1) inParen
        (quantified (q ! pos) regexp) = Ok (r, length pre + n)" by (simp add: add.assoc)
    with ne
    show "parseRegexp_loop (pre @ q) (length pre + pos) inParen regexp = Ok (r, length pre + n)"
      unfolding loop_quantifier [OF px] by simp
  qed
next
  case (backslash pos inParen regexp)
  have px: "length pre + pos < length (pre @ q)" "(pre @ q) ! (length pre + pos) = CHR 0x5C"
    using backslash(1,2) by simp_all
  show ?case
  proof (intro impI allI)
    fix r n
    assume ok: "parseRegexp_loop q pos inParen regexp = Ok (r, n)"
    from ok have g: "pos + 1 < length q" and rest: "parseRegexp_loop q (pos + 2) inParen
        (concatOnto regexp (regexpChar (q ! (pos + 1)))) = Ok (r, n)"
      unfolding loop_backslash [OF backslash(1,2)] by (simp_all split: if_splits)
    from backslash(3) [of "concatOnto regexp (regexpChar (q ! (pos + 1)))"] rest
    have "parseRegexp_loop (pre @ q) (length pre + (pos + 2)) inParen
        (concatOnto regexp (regexpChar (q ! (pos + 1)))) = Ok (r, length pre + n)" by blast
    then have "parseRegexp_loop (pre @ q) (length pre + pos + 2) inParen
        (concatOnto regexp (regexpChar (q ! (pos + 1)))) = Ok (r, length pre + n)"
      by (simp add: add.assoc)
    moreover have "(pre @ q) ! (length pre + pos + 1) = q ! (pos + 1)"
      by (simp add: nth_append)
    ultimately
    show "parseRegexp_loop (pre @ q) (length pre + pos) inParen regexp = Ok (r, length pre + n)"
      unfolding loop_backslash [OF px] using g by simp
  qed
next
  case (lbracket pos inParen regexp)
  have px: "length pre + pos < length (pre @ q)" "(pre @ q) ! (length pre + pos) = CHR ''[''"
    using lbracket(1,2) by simp_all
  show ?case
  proof (intro impI allI)
    fix r n
    assume ok: "parseRegexp_loop q pos inParen regexp = Ok (r, n)"
    from ok obtain nx newPos where sub: "parseCharacterClass q pos = Ok (nx, newPos)"
      and rest: "parseRegexp_loop q newPos inParen (concatOnto regexp nx) = Ok (r, n)"
      unfolding loop_lbracket [OF lbracket(1,2)]
      by (auto split: parsed.splits prod.splits)
    from lbracket(3) [OF sub, of "concatOnto regexp nx"] rest
    have "parseRegexp_loop (pre @ q) (length pre + newPos) inParen (concatOnto regexp nx)
        = Ok (r, length pre + n)" by blast
    then
    show "parseRegexp_loop (pre @ q) (length pre + pos) inParen regexp = Ok (r, length pre + n)"
      unfolding loop_lbracket [OF px] by (simp add: class_shift [OF sub])
  qed
next
  case (atom pos inParen regexp)
  have px: "length pre + pos < length (pre @ q)" "\<not> isMeta ((pre @ q) ! (length pre + pos))"
    using atom(1,2) by simp_all
  show ?case
  proof (intro impI allI)
    fix r n
    assume ok: "parseRegexp_loop q pos inParen regexp = Ok (r, n)"
    from ok have rest: "parseRegexp_loop q (pos + 1) inParen (concatOnto regexp (atomOf (q ! pos)))
        = Ok (r, n)"
      unfolding loop_atom [OF atom(1,2)] .
    from atom(3) [of "concatOnto regexp (atomOf (q ! pos))"] rest
    have "parseRegexp_loop (pre @ q) (length pre + (pos + 1)) inParen
        (concatOnto regexp (atomOf (q ! pos))) = Ok (r, length pre + n)" by blast
    then have "parseRegexp_loop (pre @ q) (length pre + pos + 1) inParen
        (concatOnto regexp (atomOf (q ! pos))) = Ok (r, length pre + n)" by (simp add: add.assoc)
    then
    show "parseRegexp_loop (pre @ q) (length pre + pos) inParen regexp = Ok (r, length pre + n)"
      unfolding loop_atom [OF px] by simp
  qed
qed

subsection \<open>Malformed patterns\<close>

lemma ParseRegexp_no_panic: "ParseRegexp s \<noteq> IndexOutOfRange"
  using parse_no_panic(1) [of s 0 False]
  by (simp add: ParseRegexp_def split: parsed.splits)

lemma ParseRegexp_empty: "ParseRegexp [] = Err UnexpectedEndOfRegexp"
  by (simp add: ParseRegexp_def parseRegexp_unfold)

lemma after_bar:
  "parseRegexp_loop (p @ CHR ''|'' # []) (length p) False regexp = Err UnexpectedEndOfRegexp"
  by (simp add: loop_bar parseRegexp_unfold)

lemma after_backslash:
  "parseRegexp_loop (p @ [CHR 0x5C]) (length p) False regexp = Err InvalidEscapeSequence"
  by (simp add: loop_backslash)

lemma after_rparen:
  "parseRegexp_loop (p @ CHR '')'' # q) (length p) False regexp = Err UnexpectedClosingParen"
  by (simp add: loop_rparen)

lemma after_lbracket:
  assumes "CHR '']'' \<notin> set cs"
  shows "\<exists>e. \<forall>regexp. parseRegexp_loop (p @ CHR ''['' # cs) (length p) False regexp = Err e"
proof -
  have "\<forall>i. length p < i \<and> i < length (p @ CHR ''['' # cs) \<longrightarrow> (p @ CHR ''['' # cs) ! i \<noteq> CHR '']''"
  proof (intro allI impI)
    fix i assume i: "length p < i \<and> i < length (p @ CHR ''['' # cs)"
    then have "i = length p + Suc (i - length p - 1)" "i - length p - 1 < length cs"
      by auto
    then obtain k where k: "i = length p + Suc k" "k < length cs" by blast
    then have "(p @ CHR ''['' # cs) ! i = cs ! k" by (simp add: nth_append)
    with assms k(2) show "(p @ CHR ''['' # cs) ! i \<noteq> CHR '']''"
      by (metis nth_mem)
  qed
  from class_unterminated [OF this] obtain e where
    "parseCharacterClass (p @ CHR ''['' # cs) (length p) = Err e" by blast
  then have "\<forall>regexp. parseRegexp_loop (p @ CHR ''['' # cs) (length p) False regexp = Err e"
    by (simp add: loop_lbracket)
  then show ?thesis by blast
qed

lemma after_bar_quantifier:
  assumes "isQuantifier c"
  shows "parseRegexp_loop (p @ CHR ''|'' # c # s) (length p) False regexp = Err (quantifierError c)"
proof -
  let ?s = "p @ CHR ''|'' # c # s"
  have "length p + 1 < length ?s" "?s ! (length p + 1) = c"
    by (simp_all add: nth_append)
  with assms have "parseRegexp ?s (length p + 1) False = Err (quantifierError c)"
    by (simp add: parseRegexp_unfold loop_quantifier)
  then show ?thesis by (simp add: loop_bar)
qed

lemma after_lparen_quantifier:
  assumes "isQuantifier c"
  shows "parseRegexp_loop (p @ CHR ''('' # c # s) (length p) False regexp = Err (quantifierError c)"
proof -
  let ?s = "p @ CHR ''('' # c # s"
  have "length p + 1 < length ?s" "?s ! (length p + 1) = c"
    by (simp_all add: nth_append)
  with assms have "parseRegexp ?s (length p + 1) True = Err (quantifierError c)"
    by (simp add: parseRegexp_unfold loop_quantifier)
  then show ?thesis by (simp add: loop_lparen)
qed

lemma after_lparen:
  assumes "wellFormedOrEmpty q"
  shows "parseRegexp_loop (p @ CHR ''('' # q) (length p) False regexp
    = Err (if q = [] then UnexpectedEndOfRegexp else ExpectedClosingParen)"
proof (cases "q = []")
  case True
  then show ?thesis by (simp add: loop_lparen parseRegexp_unfold)
next
  case False
  with assms obtain r n where ok: "parseRegexp q 0 False = Ok (r, n)"
    by (auto simp: wellFormedOrEmpty_def ParseRegexp_def split: parsed.splits)
  from parse_to_end(1) [of False 0 q] ok have n: "n = length q" by simp
  from parse_in_paren(1) [of False q 0] ok have "parseRegexp q 0 True = Ok (r, n)" by simp
  with parse_shift(1) [of q 0 True "p @ [CHR ''('']"] n
  have "parseRegexp (p @ CHR ''('' # q) (length p + 1) True = Ok (r, length p + 1 + length q)"
    by simp
  with False show ?thesis by (simp add: loop_lparen)
qed

lemma quantifier_first:
  assumes "isQuantifier c"
  shows "ParseRegexp (c # s) = Err (quantifierError c)"
  using assms loop_quantifier [of 0 "c # s" False regexpEmpty]
  by (simp add: ParseRegexp_def parseRegexp_unfold)



end
